theory Spec2Isabelle
  imports Complex_Main "HOL-Library.Product_Lexorder" "HOL-Library.Sublist"
    "HOL-Library.Multiset"
begin

section \<open>The recommendation window of \<open>show_recommendations\<close>\<close>

text \<open>
  \<open>show_recommendations\<close> keeps two local variables across the rounds of its
  \<open>while True\<close> loop: the list \<open>display_indices\<close> of row numbers of
  \<open>top_matches\<close> that are on screen, and the cursor \<open>next_index\<close>. The frame
  \<open>top_matches\<close> enters the window logic only through its length, the parameter
  \<open>n\<close> below.
\<close>

record window =
  display_indices :: "nat list"
  next_index :: nat

text \<open>
  Lines 174 to 183. An empty frame prints the apology and returns before any window
  exists; otherwise the first \<open>min(5, len(top_matches))\<close> rows are shown.
\<close>

datatype notice = No_movies_matched

definition initialize :: "nat \<Rightarrow> notice + window" where
  "initialize n =
     (if n = 0 then Inl No_movies_matched
      else (let display_limit = min 5 n
            in Inr \<lparr>display_indices = [0..<display_limit], next_index = display_limit\<rparr>))"

text \<open>
  One entry of \<open>seen_nums.split(',')\<close>, after \<open>strip\<close>, classified by what the two
  library calls of lines 213 and 216 do with it: \<open>isdigit\<close> fails; \<open>isdigit\<close> holds and
  \<open>int\<close> yields a number; \<open>isdigit\<close> holds and \<open>int\<close> raises \<open>ValueError\<close> (a superscript
  digit, for instance).
\<close>

datatype token = NotDigits string | Digits nat | BadDigits string

text \<open>The warnings the round prints, in order.\<close>

datatype event =
    Not_a_valid_number string
  | Not_in_the_list int
  | No_more_new nat
  | No_valid_selections
  | Error_processing

text \<open>
  \<open>seen_indices\<close> is a Python \<open>set\<close> of small integers. CPython keeps a set in an
  open-addressing table of at least eight slots, a small non-negative integer hashes to
  itself, and every value stored here is below \<open>len(display_indices)\<close>, which is at
  most five: each value sits in the slot of its own number and iteration scans the slots
  upwards. The set is therefore modelled by the ascending list of its members, and
  \<open>add\<close> by insertion that ignores a value already present.
\<close>

fun set_add :: "nat \<Rightarrow> nat list \<Rightarrow> nat list" where
  "set_add v [] = [v]"
| "set_add v (x # xs) =
     (if v = x then x # xs else if v < x then v # x # xs else x # set_add v xs)"

text \<open>
  Lines 211 to 220: the loop over the entries. The result \<open>None\<close> is the
  \<open>ValueError\<close> of \<open>int\<close>, which leaves the \<open>try\<close> block with the warnings printed so
  far.
\<close>

fun parse_seen :: "nat \<Rightarrow> token list \<Rightarrow> nat list \<Rightarrow> event list \<Rightarrow> nat list option \<times> event list" where
  "parse_seen len [] seen out = (Some seen, out)"
| "parse_seen len (NotDigits s # ts) seen out =
     parse_seen len ts seen (out @ [Not_a_valid_number s])"
| "parse_seen len (BadDigits s # ts) seen out = (None, out)"
| "parse_seen len (Digits k # ts) seen out =
     (let val = int k - 1
      in if val < 0 \<or> val \<ge> int len
         then parse_seen len ts seen (out @ [Not_in_the_list (val + 1)])
         else parse_seen len ts (set_add (nat val) seen) out)"

text \<open>
  Lines 222 to 227: the loop over \<open>seen_indices\<close>. An index outside
  \<open>display_indices\<close> would raise \<open>IndexError\<close> at the assignment; the loop then
  stops with the changes made so far (\<open>Inl\<close>).
\<close>

fun replace_seen :: "nat \<Rightarrow> nat list \<Rightarrow> window \<Rightarrow> event list \<Rightarrow> (window \<times> event list) + (window \<times> event list)" where
  "replace_seen n [] w out = Inr (w, out)"
| "replace_seen n (seen_idx # rest) w out =
     (if next_index w < n
      then (if seen_idx < length (display_indices w)
            then replace_seen n rest
                   \<lparr>display_indices = (display_indices w)[seen_idx := next_index w],
                    next_index = next_index w + 1\<rparr> out
            else Inl (w, out))
      else replace_seen n rest w (out @ [No_more_new (seen_idx + 1)]))"

text \<open>
  Lines 208 to 232: the body of the \<open>'y'\<close> branch. Any exception inside the \<open>try\<close>
  prints the error line and the loop goes on with the state as it is.
\<close>

definition mark_seen :: "nat \<Rightarrow> window \<Rightarrow> token list \<Rightarrow> window \<times> event list" where
  "mark_seen n w toks =
     (case parse_seen (length (display_indices w)) toks [] [] of
        (None, out) \<Rightarrow> (w, out @ [Error_processing])
      | (Some seen_indices, out) \<Rightarrow>
          (case replace_seen n seen_indices w out of
             Inl (w', out') \<Rightarrow> (w', out' @ [Error_processing])
           | Inr (w', out') \<Rightarrow>
               (w', if seen_indices = [] then out' @ [No_valid_selections] else out')))"

text \<open>
  Lines 185 to 235: the rounds of the loop, driven by the answers to the
  \<open>(y/n)\<close> question. The result lists the \<open>display_indices\<close> printed at the top of
  each round; the list of answers ends where the program waits for input.
\<close>

datatype reply = Reply_n | Reply_y "token list" | Reply_other

fun rounds :: "nat \<Rightarrow> window \<Rightarrow> reply list \<Rightarrow> nat list list" where
  "rounds n w [] = [display_indices w]"
| "rounds n w (Reply_n # rs) = [display_indices w]"
| "rounds n w (Reply_y toks # rs) = display_indices w # rounds n (fst (mark_seen n w toks)) rs"
| "rounds n w (Reply_other # rs) = display_indices w # rounds n w rs"

definition show_recommendations :: "nat \<Rightarrow> reply list \<Rightarrow> notice + nat list list" where
  "show_recommendations n replies =
     (case initialize n of Inl e \<Rightarrow> Inl e | Inr w \<Rightarrow> Inr (rounds n w replies))"

text \<open>
  The state invariant of the window over a frame of \<open>n\<close> rows: the rows on screen are
  distinct, each was handed out by the cursor (it lies below \<open>next_index\<close>), there are
  at most five of them, and the cursor lies between their number and \<open>n\<close>.
\<close>

definition window_inv :: "nat \<Rightarrow> window \<Rightarrow> bool" where
  "window_inv n w =
     (distinct (display_indices w) \<and>
      list_all (\<lambda>i. i < next_index w) (display_indices w) \<and>
      length (display_indices w) \<le> 5 \<and>
      length (display_indices w) \<le> next_index w \<and>
      next_index w \<le> n)"

text \<open>
  Two notions used to state what a round does. \<open>good\<close> holds of an entry on which
  \<open>int\<close> does not raise. \<open>slots_of len toks\<close> lists, in the order typed, the
  zero-based slots named by the entries that pass both checks of the parsing loop.
\<close>

fun good :: "token \<Rightarrow> bool" where
  "good (BadDigits s) = False"
| "good t = True"

fun slots_of :: "nat \<Rightarrow> token list \<Rightarrow> nat list" where
  "slots_of len [] = []"
| "slots_of len (Digits k # ts) =
     (if 0 < k \<and> k \<le> len then (k - 1) # slots_of len ts else slots_of len ts)"
| "slots_of len (t # ts) = slots_of len ts"

text \<open>
  The warnings the parsing loop prints for a list of entries, and the numbers typed.
\<close>

fun parse_events :: "nat \<Rightarrow> token list \<Rightarrow> event list" where
  "parse_events len [] = []"
| "parse_events len (NotDigits s # ts) = Not_a_valid_number s # parse_events len ts"
| "parse_events len (BadDigits s # ts) = []"
| "parse_events len (Digits k # ts) =
     (if k = 0 \<or> len < k then Not_in_the_list (int k) # parse_events len ts
      else parse_events len ts)"

fun numbers_of :: "token list \<Rightarrow> nat list" where
  "numbers_of [] = []"
| "numbers_of (Digits k # ts) = k # numbers_of ts"
| "numbers_of (t # ts) = numbers_of ts"

text \<open>
  The operation as the specification words it (section 4.3, \<open>markSeen\<close>): the positions
  are visited in increasing order; a position outside \<open>[1, len(displayed)]\<close> is skipped;
  otherwise the slot \<open>p - 1\<close> receives the cursor, which advances, while a candidate is
  left. These two definitions follow the specification, not the source; the source's
  \<open>mark_seen\<close> is compared with them below.
\<close>

fun markSeen_steps :: "nat \<Rightarrow> nat list \<Rightarrow> window \<Rightarrow> window" where
  "markSeen_steps n [] w = w"
| "markSeen_steps n (p # ps) w =
     (if p < 1 \<or> length (display_indices w) < p then markSeen_steps n ps w
      else (let slot = p - 1
            in if next_index w < n
               then markSeen_steps n ps
                      \<lparr>display_indices = (display_indices w)[slot := next_index w],
                       next_index = next_index w + 1\<rparr>
               else markSeen_steps n ps w))"

definition markSeen_spec :: "nat \<Rightarrow> nat set \<Rightarrow> window \<Rightarrow> window" where
  "markSeen_spec n positions w = markSeen_steps n (sorted_list_of_set positions) w"

section \<open>Strings and \<open>str.contains\<close>\<close>

text \<open>
  A Python string is modelled by the list of its code points, each below 256 (Latin-1).
  \<open>lower_char\<close> is \<open>str.lower\<close> on one such code point: the letters \<open>A\<close> to \<open>Z\<close> and
  the accented capitals \<open>0xC0\<close> to \<open>0xDE\<close> (without the sign \<open>0xD7\<close>) move up by 32.
  \<open>strip\<close> is \<open>str.strip()\<close>, which removes the white space at both ends.
\<close>

definition lower_char :: "char \<Rightarrow> char" where
  "lower_char c =
     (let k = (of_char c :: nat)
      in if (65 \<le> k \<and> k \<le> 90) \<or> (192 \<le> k \<and> k \<le> 222 \<and> k \<noteq> 215)
         then char_of (k + 32) else c)"

definition lower :: "string \<Rightarrow> string" where
  "lower s = map lower_char s"

definition isspace :: "char \<Rightarrow> bool" where
  "isspace c =
     (let k = (of_char c :: nat)
      in (9 \<le> k \<and> k \<le> 13) \<or> (28 \<le> k \<and> k \<le> 32) \<or> k = 133 \<or> k = 160)"

definition strip :: "string \<Rightarrow> string" where
  "strip s = rev (dropWhile isspace (rev (dropWhile isspace s)))"

text \<open>
  Both call sites use \<open>Series.str.contains(pat, case=False, na=False)\<close> and leave the
  parameter \<open>regex\<close> at its default \<open>True\<close>: the pattern is compiled by \<open>re\<close> with the
  flag \<open>IGNORECASE\<close> and each cell is searched for a match. The characters below are the
  ones \<open>re\<close> does not read as themselves.
\<close>

definition special :: "char \<Rightarrow> bool" where
  "special c = (c \<in> set ''.^$*+?{}[]|()'' \<or> c = CHR 0x5C)"

text \<open>
  The part of the pattern language that is modelled exactly: a pattern of ordinary
  characters and dots. An ordinary character matches itself up to case; a dot matches any
  character but the line feed. \<open>search\<close> looks for a match starting at any position of
  the subject, as \<open>re.search\<close> does.
\<close>

datatype atom = Lit char | Dot

definition atom_of :: "char \<Rightarrow> atom" where
  "atom_of c = (if c = CHR ''.'' then Dot else Lit c)"

fun atom_matches :: "atom \<Rightarrow> char \<Rightarrow> bool" where
  "atom_matches (Lit p) c = (lower_char p = lower_char c)"
| "atom_matches Dot c = (c \<noteq> CHR 0x0A)"

fun match_here :: "atom list \<Rightarrow> string \<Rightarrow> bool" where
  "match_here [] s = True"
| "match_here (a # as) [] = False"
| "match_here (a # as) (c # cs) = (atom_matches a c \<and> match_here as cs)"

fun search :: "atom list \<Rightarrow> string \<Rightarrow> bool" where
  "search as [] = match_here as []"
| "search as (c # cs) = (match_here as (c # cs) \<or> search as cs)"

definition simple :: "string \<Rightarrow> bool" where
  "simple pat = list_all (\<lambda>c. c = CHR ''.'' \<or> \<not> special c) pat"

text \<open>
  Every other pattern is left to the parameter \<open>rx\<close>, which stands for the regular
  expression engine on the rest of its syntax: \<open>rx pat\<close> is \<open>None\<close> when compiling
  \<open>pat\<close> raises \<open>re.error\<close> and otherwise the search predicate of the compiled
  pattern. What is proved below holds for every such engine. \<open>no_engine\<close> is the one
  that rejects every pattern handed to it.
\<close>

type_synonym matcher = "string \<Rightarrow> bool"

type_synonym engine = "string \<Rightarrow> matcher option"

definition re_compile :: "engine \<Rightarrow> string \<Rightarrow> matcher option" where
  "re_compile rx pat = (if simple pat then Some (search (map atom_of pat)) else rx pat)"

definition no_engine :: engine where
  "no_engine pat = None"

text \<open>A cell of a text column is a string or missing (\<open>NaN\<close>); \<open>na=False\<close> makes a
  missing cell a non-match.\<close>

definition str_contains :: "matcher \<Rightarrow> string option \<Rightarrow> bool" where
  "str_contains f cell = (case cell of None \<Rightarrow> False | Some s \<Rightarrow> f s)"

text \<open>
  The notion the specification speaks of: \<open>pat\<close> occurs in \<open>s\<close> as a contiguous
  substring, up to case.
\<close>

definition ci_substring :: "string \<Rightarrow> string \<Rightarrow> bool" where
  "ci_substring pat s = sublist (lower pat) (lower s)"

section \<open>\<open>filter_movies\<close>\<close>

text \<open>
  A row of the movie frame: its index label and the columns \<open>filter_movies\<close> and the
  display read. \<open>read_csv\<close> labels the rows of the file \<open>0, 1, 2, \<dots>\<close>;
  \<open>load_movie_data\<close> splits \<open>Genre\<close> into a list and drops the rows in which
  \<open>Rating\<close>, \<open>Year\<close>, \<open>Runtime (Minutes)\<close> or \<open>Votes\<close> is missing (line 15), and the
  rows that remain keep their labels. So the labels of a frame are distinct, the numbers
  are present (no \<open>NaN\<close>: a rating is a real number here, and only its order is used),
  and \<open>Actors\<close> may be missing. The frame is the list of its rows in order.
\<close>

record movie =
  Label :: nat
  Title :: string
  Genre :: "string list"
  Year :: int
  Rating :: real
  Runtime :: int
  Votes :: int
  Actors :: "string option"

text \<open>The dictionary \<open>prefs\<close>; \<open>None\<close> is Python's \<open>None\<close>.\<close>

record prefs =
  genre :: "string option"
  min_rating :: "real option"
  min_year :: "int option"
  max_year :: "int option"
  max_runtime :: "int option"
  fav_actor :: "string option"

text \<open>
  Lines 116 to 128: the value of \<open>mask\<close> at one row. An empty \<open>genre\<close> is false
  in the test of line 119 and filters nothing. \<open>no_filter\<close> holds when none of the five
  tests of lines 119 to 127 succeeds, so that \<open>mask\<close> stays as line 116 built it.
\<close>

definition mask :: "prefs \<Rightarrow> movie \<Rightarrow> bool" where
  "mask p row =
     ((case genre p of None \<Rightarrow> True | Some g \<Rightarrow> g = [] \<or> g \<in> set (Genre row)) \<and>
      (case min_rating p of None \<Rightarrow> True | Some r \<Rightarrow> Rating row \<ge> r) \<and>
      (case min_year p of None \<Rightarrow> True | Some y \<Rightarrow> Year row \<ge> y) \<and>
      (case max_year p of None \<Rightarrow> True | Some y \<Rightarrow> Year row \<le> y) \<and>
      (case max_runtime p of None \<Rightarrow> True | Some t \<Rightarrow> Runtime row \<le> t))"

definition no_filter :: "prefs \<Rightarrow> bool" where
  "no_filter p =
     ((genre p = None \<or> genre p = Some []) \<and> min_rating p = None \<and> min_year p = None \<and>
      max_year p = None \<and> max_runtime p = None)"

text \<open>
  Line 116 builds \<open>mask\<close> as a new series: its labels are \<open>0, \<dots>, len(df) - 1\<close>
  whatever the labels of \<open>df\<close> are, and \<open>&=\<close> keeps the labels of its left operand.
  Line 130 selects the rows of \<open>df\<close> by label: when \<open>df\<close> has a label that the mask
  has not (\<open>dropna\<close> removed a row that was not at the end of the file) \<open>df[mask]\<close>
  raises \<open>IndexingError\<close>. \<open>aligned\<close> holds when every label of \<open>df\<close> is a label of
  the mask.
\<close>

definition aligned :: "movie list \<Rightarrow> bool" where
  "aligned df = list_all (\<lambda>row. Label row < length df) df"

text \<open>
  Lines 114 to 149. For an empty \<open>df\<close> the series of line 116 is not boolean; when no
  filter touches it, \<open>df[mask]\<close> selects no column and the function raises \<open>KeyError\<close>
  at the first column it asks for. \<open>sort_values\<close> on several columns is a stable
  lexicographic sort (rows with equal keys keep their order); all columns are sorted
  descending, which the keys below express by negation, and the \<open>key\<close> function of line
  143 replaces the column \<open>Actors\<close> by \<open>actor_mask\<close>. The result carries the frame
  returned and whether the line about no actor match was printed.
\<close>

datatype py_error = Re_error | Indexing_error | Key_error

record ranking =
  no_actor_match :: bool
  sorted_df :: "movie list"

definition filter_movies :: "engine \<Rightarrow> movie list \<Rightarrow> prefs \<Rightarrow> py_error + ranking" where
  "filter_movies rx df p =
     (if df = [] \<and> no_filter p then Inl Key_error
      else if \<not> aligned df then Inl Indexing_error
      else
       (let filtered_df = filter (mask p) df;
            default_sort = Inr \<lparr>no_actor_match = False,
                                sorted_df = sort_key (\<lambda>row. (- Rating row, - Votes row)) filtered_df\<rparr>
        in case fav_actor p of
             None \<Rightarrow> default_sort
           | Some a \<Rightarrow>
               if a = [] then default_sort
               else (case re_compile rx a of
                       None \<Rightarrow> Inl Re_error
                     | Some f \<Rightarrow>
                         (let actor_mask = (\<lambda>row. str_contains f (Actors row))
                          in Inr \<lparr>no_actor_match = \<not> list_ex actor_mask filtered_df,
                                  sorted_df =
                                    sort_key (\<lambda>row. (\<not> actor_mask row, - Rating row, - Votes row))
                                      filtered_df\<rparr>))))"

section \<open>\<open>check_oscar_status\<close>\<close>

text \<open>
  A cell of the column \<open>winner\<close>: a boolean when \<open>read_csv\<close> recognised the column as
  such, a string otherwise, or missing. \<open>py_str\<close> is \<open>str\<close> on it.
\<close>

datatype cell = CBool bool | CStr string | CNaN

fun py_str :: "cell \<Rightarrow> string" where
  "py_str (CBool b) = (if b then ''True'' else ''False'')"
| "py_str (CStr s) = s"
| "py_str CNaN = ''nan''"

record award =
  film :: "string option"
  category :: string
  winner :: cell

text \<open>Lines 161 to 164: the line built for one matched row.\<close>

definition status :: "cell \<Rightarrow> string" where
  "status w = (if lower (strip (py_str w)) = ''true'' then ''Winner'' else ''Nominated'')"

definition oscar_line :: "award \<Rightarrow> string" where
  "oscar_line row = status (winner row) @ '' for '' @ category row"

text \<open>
  Lines 152 to 167. \<open>oscar_df\<close> is \<open>None\<close> when the file was not found. The result
  \<open>Inr None\<close> is the \<open>None\<close> the function returns on both paths without a match.
\<close>

definition check_oscar_status :: "engine \<Rightarrow> string \<Rightarrow> award list option \<Rightarrow> py_error + string list option" where
  "check_oscar_status rx movie_title oscar_df =
     (case oscar_df of
        None \<Rightarrow> Inr None
      | Some rows \<Rightarrow>
          (case re_compile rx movie_title of
             None \<Rightarrow> Inl Re_error
           | Some f \<Rightarrow>
               (let matched_rows = filter (\<lambda>row. str_contains f (film row)) rows
                in if matched_rows \<noteq> [] then Inr (Some (map oscar_line matched_rows))
                   else Inr None)))"

section \<open>Properties of the window\<close>

lemma set_set_add: "set (set_add v xs) = insert v (set xs)"
  by (induction xs) auto

lemma sorted_set_add: "sorted_wrt (<) xs \<Longrightarrow> sorted_wrt (<) (set_add v xs)"
  by (induction xs) (auto simp: set_set_add)

lemma parse_seen_good:
  "list_all good toks \<Longrightarrow> sorted_wrt (<) seen \<Longrightarrow>
   \<exists>s out'. parse_seen len toks seen out = (Some s, out') \<and> sorted_wrt (<) s \<and>
     set s = set seen \<union> set (slots_of len toks)"
proof (induction len toks seen out rule: parse_seen.induct)
  case (4 len k ts seen out)
  show ?case
  proof (cases "0 < k \<and> k \<le> len")
    case True
    then have v: "\<not> (int k - 1 < 0 \<or> int len \<le> int k - 1)" by auto
    have n: "nat (int k - 1) = k - 1" by simp
    from 4(2)[OF refl v] 4(3,4) True v show ?thesis
      by (auto simp: Let_def sorted_set_add set_set_add n)
  next
    case False
    then have v: "int k - 1 < 0 \<or> int len \<le> int k - 1" by auto
    from 4(1)[OF refl v] 4(3,4) False v show ?thesis
      by (auto simp: Let_def)
  qed
qed auto

lemma slots_of_lt: "i \<in> set (slots_of len toks) \<Longrightarrow> i < len"
  by (induction len toks rule: slots_of.induct) (auto split: if_splits)

lemma parse_seen_sorted_list:
  assumes "list_all good toks"
  shows "fst (parse_seen len toks [] out) = Some (sorted_list_of_set (set (slots_of len toks)))"
proof -
  from parse_seen_good[OF assms, of "[]" len out] obtain s out' where
    p: "parse_seen len toks [] out = (Some s, out')" and s: "sorted_wrt (<) s"
    and e: "set s = set (slots_of len toks)" by auto
  from s have "sorted s" "distinct s" by (auto simp: strict_sorted_iff)
  then have "sorted_list_of_set (set s) = s" by (simp add: sorted_list_of_set.idem_if_sorted_distinct)
  with p e show ?thesis by simp
qed

lemma parse_seen_bad_or:
  "sorted_wrt (<) seen \<Longrightarrow> (\<forall>i\<in>set seen. i < len) \<Longrightarrow>
   (case fst (parse_seen len toks seen out) of None \<Rightarrow> True | Some s \<Rightarrow> sorted_wrt (<) s \<and> (\<forall>i\<in>set s. i < len))"
proof (induction len toks seen out rule: parse_seen.induct)
  case (4 len k ts seen out)
  show ?case
  proof (cases "int k - 1 < 0 \<or> int len \<le> int k - 1")
    case True
    from 4(1)[OF refl True] 4(3,4) True show ?thesis by (simp add: Let_def)
  next
    case False
    then have "nat (int k - 1) < len" by auto
    with 4(2)[OF refl False] 4(3,4) False show ?thesis
      by (simp add: Let_def sorted_set_add set_set_add)
  qed
qed auto

lemma replace_seen_inv:
  "window_inv n w \<Longrightarrow> \<forall>i\<in>set idxs. i < length (display_indices w) \<Longrightarrow>
   \<exists>w' out'. replace_seen n idxs w out = Inr (w', out') \<and> window_inv n w' \<and>
     length (display_indices w') = length (display_indices w) \<and>
     next_index w \<le> next_index w' \<and>
     (\<forall>v\<in>set (display_indices w'). v \<in> set (display_indices w) \<or> next_index w \<le> v)"
proof (induction idxs arbitrary: w out)
  case Nil
  then show ?case by simp
next
  case (Cons i idxs)
  show ?case
  proof (cases "next_index w < n")
    case False
    with Cons.IH[OF Cons.prems(1), of "out @ [No_more_new (i + 1)]"] Cons.prems(2)
    show ?thesis by simp
  next
    case True
    let ?w = "\<lparr>display_indices = (display_indices w)[i := next_index w],
               next_index = next_index w + 1\<rparr>"
    from Cons.prems have i: "i < length (display_indices w)" by simp
    have fresh: "next_index w \<notin> set (display_indices w)"
      using Cons.prems(1) by (auto simp: window_inv_def list_all_iff)
    have sub: "set ((display_indices w)[i := next_index w]) \<subseteq> insert (next_index w) (set (display_indices w))"
      by (rule set_update_subset_insert)
    have inv: "window_inv n ?w"
      using Cons.prems(1) True fresh sub
      by (auto simp: window_inv_def list_all_iff distinct_list_update less_Suc_eq dest!: subsetD)
    have len: "\<forall>j\<in>set idxs. j < length (display_indices ?w)"
      using Cons.prems(2) by simp
    from Cons.IH[OF inv len, of out] obtain w' out' where
      r: "replace_seen n idxs ?w out = Inr (w', out')" and i': "window_inv n w'"
      and l: "length (display_indices w') = length (display_indices ?w)"
      and m: "next_index ?w \<le> next_index w'"
      and v: "\<forall>v\<in>set (display_indices w'). v \<in> set (display_indices ?w) \<or> next_index ?w \<le> v"
      by blast
    have "\<forall>v\<in>set (display_indices w'). v \<in> set (display_indices w) \<or> next_index w \<le> v"
    proof
      fix v assume "v \<in> set (display_indices w')"
      with v have "v \<in> set ((display_indices w)[i := next_index w]) \<or> next_index w + 1 \<le> v" by simp
      with sub show "v \<in> set (display_indices w) \<or> next_index w \<le> v" by auto
    qed
    with r i' l m True i show ?thesis by simp
  qed
qed

lemma mark_seen_inv:
  assumes "window_inv n w"
  shows "window_inv n (fst (mark_seen n w toks)) \<and>
     length (display_indices (fst (mark_seen n w toks))) = length (display_indices w) \<and>
     next_index w \<le> next_index (fst (mark_seen n w toks)) \<and>
     (\<forall>v\<in>set (display_indices (fst (mark_seen n w toks))).
        v \<in> set (display_indices w) \<or> next_index w \<le> v)"
proof -
  obtain r out where p: "parse_seen (length (display_indices w)) toks [] [] = (r, out)"
    by (cases "parse_seen (length (display_indices w)) toks [] []") auto
  show ?thesis
  proof (cases r)
    case None
    with p assms show ?thesis by (simp add: mark_seen_def)
  next
    case (Some s)
    from parse_seen_bad_or[of "[]" "length (display_indices w)" toks "[]"] p Some
    have lt: "\<forall>i\<in>set s. i < length (display_indices w)" by simp
    from replace_seen_inv[OF assms lt, of out] obtain w' out' where
      "replace_seen n s w out = Inr (w', out')" "window_inv n w'"
      "length (display_indices w') = length (display_indices w)"
      "next_index w \<le> next_index w'"
      "\<forall>v\<in>set (display_indices w'). v \<in> set (display_indices w) \<or> next_index w \<le> v"
      by blast
    with p Some show ?thesis by (simp add: mark_seen_def)
  qed
qed

lemma initialize_inv: "0 < n \<Longrightarrow> initialize n = Inr w \<Longrightarrow> window_inv n w"
  by (auto simp: initialize_def window_inv_def list_all_iff Let_def)

lemma gone_stays_gone:
  "window_inv n w \<Longrightarrow> v < next_index w \<Longrightarrow> v \<notin> set (display_indices w) \<Longrightarrow>
   \<forall>s\<in>set (rounds n w rs). v \<notin> set s"
proof (induction n w rs rule: rounds.induct)
  case (3 n w toks rs)
  let ?w = "fst (mark_seen n w toks)"
  from mark_seen_inv[OF 3(2), of toks] 3(3,4)
  have "window_inv n ?w" "v < next_index ?w" "v \<notin> set (display_indices ?w)" by auto
  from 3(1)[OF this] 3(4) show ?case by simp
qed auto

lemma window_inv_shown:
  assumes "window_inv n w"
  shows "distinct (display_indices w)" and "\<forall>i\<in>set (display_indices w). i < n"
proof -
  from assms show "distinct (display_indices w)" by (simp add: window_inv_def)
  from assms have b: "\<forall>i\<in>set (display_indices w). i < next_index w" and "next_index w \<le> n"
    by (simp_all add: window_inv_def list_all_iff)
  then show "\<forall>i\<in>set (display_indices w). i < n" by (meson less_le_trans)
qed

lemma rounds_inv:
  "window_inv n w \<Longrightarrow> \<forall>s\<in>set (rounds n w rs).
     distinct s \<and> (\<forall>i\<in>set s. i < n) \<and> length s = length (display_indices w)"
proof (induction n w rs rule: rounds.induct)
  case (1 n w)
  with window_inv_shown[of n w] show ?case by simp
next
  case (2 n w rs)
  with window_inv_shown[of n w] show ?case by simp
next
  case (3 n w toks rs)
  let ?w = "fst (mark_seen n w toks)"
  from mark_seen_inv[OF 3(2), of toks]
  have i: "window_inv n ?w" and l: "length (display_indices ?w) = length (display_indices w)"
    by simp_all
  from 3(1)[OF i] l window_inv_shown[OF 3(2)] show ?case by simp
next
  case (4 n w rs)
  from 4(1)[OF 4(2)] window_inv_shown[OF 4(2)] show ?case by simp
qed

lemma rounds_no_return_below:
  "window_inv n w \<Longrightarrow> v < next_index w \<Longrightarrow> j < k \<Longrightarrow> k < length (rounds n w rs) \<Longrightarrow>
   v \<notin> set (rounds n w rs ! j) \<Longrightarrow> v \<notin> set (rounds n w rs ! k)"
proof (induction n w rs arbitrary: j k rule: rounds.induct)
  case (1 n w)
  then show ?case by simp
next
  case (2 n w rs)
  then show ?case by simp
next
  case (3 n w toks rs)
  let ?w = "fst (mark_seen n w toks)"
  from mark_seen_inv[OF 3(2), of toks] 3(3)
  have i: "window_inv n ?w" and b: "v < next_index ?w" by auto
  show ?case
  proof (cases j)
    case 0
    with 3(6) have "v \<notin> set (display_indices w)" by simp
    from gone_stays_gone[OF 3(2,3) this, of "Reply_y toks # rs"] nth_mem[OF 3(5)]
    show ?thesis by (rule bspec)
  next
    case (Suc j')
    with 3(4) obtain k' where k: "k = Suc k'" "j' < k'" by (cases k) auto
    from 3(1)[OF i b k(2)] 3(5,6) Suc k show ?thesis by simp
  qed
next
  case (4 n w rs)
  show ?case
  proof (cases j)
    case 0
    with 4(6) have "v \<notin> set (display_indices w)" by simp
    from gone_stays_gone[OF 4(2,3) this, of "Reply_other # rs"] nth_mem[OF 4(5)]
    show ?thesis by (rule bspec)
  next
    case (Suc j')
    with 4(4) obtain k' where k: "k = Suc k'" "j' < k'" by (cases k) auto
    from 4(1)[OF 4(2,3) k(2)] 4(5,6) Suc k show ?thesis by simp
  qed
qed

lemma rounds_never_twice:
  "window_inv n w \<Longrightarrow> i < j \<Longrightarrow> j < k \<Longrightarrow> k < length (rounds n w rs) \<Longrightarrow>
   v \<in> set (rounds n w rs ! i) \<Longrightarrow> v \<notin> set (rounds n w rs ! j) \<Longrightarrow>
   v \<notin> set (rounds n w rs ! k)"
proof (induction n w rs arbitrary: i j k rule: rounds.induct)
  case (1 n w)
  then show ?case by simp
next
  case (2 n w rs)
  then show ?case by simp
next
  case (3 n w toks rs)
  let ?w = "fst (mark_seen n w toks)"
  show ?case
  proof (cases i)
    case 0
    with 3(6) have "v \<in> set (display_indices w)" by simp
    with 3(2) have "v < next_index w" by (auto simp: window_inv_def list_all_iff)
    from rounds_no_return_below[OF 3(2) this 3(4,5,7)] show ?thesis .
  next
    case (Suc i')
    with 3(3) obtain j' where j: "j = Suc j'" "i' < j'" by (cases j) auto
    with 3(4) obtain k' where k: "k = Suc k'" "j' < k'" by (cases k) auto
    from mark_seen_inv[OF 3(2), of toks] have "window_inv n ?w" by simp
    from 3(1)[OF this j(2) k(2)] 3(5,6,7) Suc j k show ?thesis by simp
  qed
next
  case (4 n w rs)
  show ?case
  proof (cases i)
    case 0
    with 4(6) have "v \<in> set (display_indices w)" by simp
    with 4(2) have "v < next_index w" by (auto simp: window_inv_def list_all_iff)
    from rounds_no_return_below[OF 4(2) this 4(4,5,7)] show ?thesis .
  next
    case (Suc i')
    with 4(3) obtain j' where j: "j = Suc j'" "i' < j'" by (cases j) auto
    with 4(4) obtain k' where k: "k = Suc k'" "j' < k'" by (cases k) auto
    from 4(1)[OF 4(2) j(2) k(2)] 4(5,6,7) Suc j k show ?thesis by simp
  qed
qed

lemma mark_seen_example:
  "mark_seen 6 \<lparr>display_indices = [0, 1, 2, 3, 4], next_index = 5\<rparr> [Digits 2, Digits 4] =
     (\<lparr>display_indices = [0, 5, 2, 3, 4], next_index = 6\<rparr>, [No_more_new 4])"
  by (simp add: mark_seen_def)

text \<open>
  Claim C1. The window invariant holds of the window \<open>initialize\<close> builds for a
  non-empty frame and every \<open>mark_seen\<close> call preserves it. Under the invariant the
  rows on screen are distinct row numbers of the frame, each below the cursor, and the
  cursor lies between the number of rows shown and the length of the frame. A call never
  moves the cursor back, and a row that enters the screen is one the cursor had not yet
  handed out. Hence over the rounds of a session a row that was on screen and has left it
  is never shown again.
\<close>

theorem window_invariant:
  "(0 < n \<longrightarrow> (\<exists>w. initialize n = Inr w \<and> window_inv n w)) \<and>
   (window_inv n w \<longrightarrow>
      distinct (display_indices w) \<and> (\<forall>i\<in>set (display_indices w). i < n \<and> i < next_index w) \<and>
      length (display_indices w) \<le> next_index w \<and> next_index w \<le> n) \<and>
   (window_inv n w \<longrightarrow>
      window_inv n (fst (mark_seen n w toks)) \<and>
      next_index w \<le> next_index (fst (mark_seen n w toks)) \<and>
      (\<forall>v\<in>set (display_indices (fst (mark_seen n w toks))).
         v \<in> set (display_indices w) \<or> next_index w \<le> v)) \<and>
   (window_inv n w \<longrightarrow>
      (\<forall>i j k. i < j \<and> j < k \<and> k < length (rounds n w rs) \<and>
         v \<in> set (rounds n w rs ! i) \<and> v \<notin> set (rounds n w rs ! j) \<longrightarrow>
         v \<notin> set (rounds n w rs ! k)))"
proof (intro conjI impI allI)
  assume "0 < n"
  then obtain w where w: "initialize n = Inr w" by (auto simp: initialize_def Let_def)
  with \<open>0 < n\<close> initialize_inv show "\<exists>w. initialize n = Inr w \<and> window_inv n w" by blast
next
  assume i: "window_inv n w"
  from i show "distinct (display_indices w)" by (simp add: window_inv_def)
  from i window_inv_shown(2)[OF i]
  show "\<forall>i\<in>set (display_indices w). i < n \<and> i < next_index w"
    by (simp add: window_inv_def list_all_iff)
  from i show "length (display_indices w) \<le> next_index w" by (simp add: window_inv_def)
  from i show "next_index w \<le> n" by (simp add: window_inv_def)
  from mark_seen_inv[OF i, of toks] show "window_inv n (fst (mark_seen n w toks))" by simp
  from mark_seen_inv[OF i, of toks] show "next_index w \<le> next_index (fst (mark_seen n w toks))"
    by simp
  from mark_seen_inv[OF i, of toks]
  show "\<forall>v\<in>set (display_indices (fst (mark_seen n w toks))).
         v \<in> set (display_indices w) \<or> next_index w \<le> v" by simp
next
  fix i j k
  assume i: "window_inv n w"
    and h: "i < j \<and> j < k \<and> k < length (rounds n w rs) \<and>
         v \<in> set (rounds n w rs ! i) \<and> v \<notin> set (rounds n w rs ! j)"
  from rounds_never_twice[OF i, of i j k rs v] h show "v \<notin> set (rounds n w rs ! k)" by simp
qed

text \<open>
  The theorem at a frame of six rows: the initial window satisfies the invariant, so does
  the window after the rows at positions 2 and 4 are marked, and row 1, replaced in the
  first round, is absent from the third screen.
\<close>

theorem window_invariant_witness:
  "window_inv 6 \<lparr>display_indices = [0, 1, 2, 3, 4], next_index = 5\<rparr> \<and>
   window_inv 6 \<lparr>display_indices = [0, 5, 2, 3, 4], next_index = 6\<rparr> \<and>
   rounds 6 \<lparr>display_indices = [0, 1, 2, 3, 4], next_index = 5\<rparr>
     [Reply_y [Digits 2, Digits 4], Reply_y [Digits 2]] =
     [[0, 1, 2, 3, 4], [0, 5, 2, 3, 4], [0, 5, 2, 3, 4]] \<and>
   (1::nat) \<notin> set ([[0, 1, 2, 3, 4], [0, 5, 2, 3, 4], [0, 5, 2, 3, 4::nat]] ! 2)"
proof -
  let ?w = "\<lparr>display_indices = [0, 1, 2, 3, 4], next_index = 5\<rparr>"
  let ?rs = "[Reply_y [Digits 2, Digits 4], Reply_y [Digits 2]]"
  have h: "window_inv 6 ?w" by (simp add: window_inv_def)
  have r: "rounds 6 ?w ?rs = [[0, 1, 2, 3, 4], [0, 5, 2, 3, 4], [0, 5, 2, 3, 4]]"
    by (simp add: mark_seen_def)
  note W = window_invariant[of 6 ?w "[Digits 2, Digits 4]" ?rs 1]
  from W[THEN conjunct2, THEN conjunct2, THEN conjunct1, rule_format, OF h, THEN conjunct1]
  have a: "window_inv 6 \<lparr>display_indices = [0, 5, 2, 3, 4], next_index = 6\<rparr>"
    by (simp only: mark_seen_example fst_conv)
  have p: "0 < (1::nat) \<and> 1 < (2::nat) \<and> 2 < length (rounds 6 ?w ?rs) \<and>
         1 \<in> set (rounds 6 ?w ?rs ! 0) \<and> 1 \<notin> set (rounds 6 ?w ?rs ! 1)"
    unfolding r by simp
  from W[THEN conjunct2, THEN conjunct2, THEN conjunct2, rule_format, OF h p]
  have "1 \<notin> set (rounds 6 ?w ?rs ! 2)" .
  then have b: "(1::nat) \<notin> set ([[0, 1, 2, 3, 4], [0, 5, 2, 3, 4], [0, 5, 2, 3, 4::nat]] ! 2)"
    unfolding r .
  from h a r b show ?thesis by (intro conjI)
qed

text \<open>
  Claim C4. On an empty frame \<open>initialize\<close> yields no window but the notice that no
  movie matched, and the session shows nothing. On a frame of \<open>n > 0\<close> rows the window
  shows exactly the rows \<open>0, \<dots>, min 5 n - 1\<close> and the cursor equals their number.
  Every screen of a session has \<open>min 5 n\<close> rows, so never more than five and never more
  than the frame has.
\<close>

theorem initialize_view:
  "initialize 0 = Inl No_movies_matched \<and>
   show_recommendations 0 replies = Inl No_movies_matched \<and>
   (0 < n \<longrightarrow> initialize n = Inr \<lparr>display_indices = [0..<min 5 n], next_index = min 5 n\<rparr>) \<and>
   (\<forall>w. initialize n = Inr w \<longrightarrow> next_index w = length (display_indices w)) \<and>
   (\<forall>ss. show_recommendations n replies = Inr ss \<longrightarrow>
      (\<forall>s\<in>set ss. length s = min 5 n \<and> length s \<le> 5 \<and> length s \<le> n))"
proof (intro conjI impI allI)
  show "initialize 0 = Inl No_movies_matched" by (simp add: initialize_def)
  then show "show_recommendations 0 replies = Inl No_movies_matched"
    by (simp add: show_recommendations_def)
  show "initialize n = Inr \<lparr>display_indices = [0..<min 5 n], next_index = min 5 n\<rparr>" if "0 < n"
    using that by (simp add: initialize_def Let_def)
  show "next_index w = length (display_indices w)" if "initialize n = Inr w" for w
    using that by (auto simp: initialize_def Let_def split: if_splits)
  show "\<forall>s\<in>set ss. length s = min 5 n \<and> length s \<le> 5 \<and> length s \<le> n"
    if s: "show_recommendations n replies = Inr ss" for ss
  proof -
    from s obtain w where w: "initialize n = Inr w" and ss: "ss = rounds n w replies"
      by (auto simp: show_recommendations_def split: sum.splits)
    from w have n: "0 < n" and l: "length (display_indices w) = min 5 n"
      by (auto simp: initialize_def Let_def split: if_splits)
    from rounds_inv[OF initialize_inv[OF n w], of replies] ss l show ?thesis by simp
  qed
qed

text \<open>The theorem at a frame of three rows and a session of two rounds.\<close>

theorem initialize_view_witness:
  "initialize 3 = Inr \<lparr>display_indices = [0, 1, 2], next_index = 3\<rparr> \<and>
   show_recommendations 3 [Reply_y [Digits 1], Reply_n] = Inr [[0, 1, 2], [0, 1, 2]] \<and>
   length [0, 1, 2::nat] = min 5 3 \<and> length [0, 1, 2::nat] \<le> 5 \<and> length [0, 1, 2::nat] \<le> 3"
proof -
  have u: "[0..<3] = [0, 1, 2]" by (simp add: upt_rec)
  have s: "show_recommendations 3 [Reply_y [Digits 1], Reply_n] = Inr [[0, 1, 2], [0, 1, 2]]"
    by (simp add: show_recommendations_def initialize_def mark_seen_def u)
  note V = initialize_view[of "[Reply_y [Digits 1], Reply_n]" 3]
  from V have "initialize 3 = Inr \<lparr>display_indices = [0..<min 5 3], next_index = min 5 3\<rparr>"
    by simp
  then have a: "initialize 3 = Inr \<lparr>display_indices = [0, 1, 2], next_index = 3\<rparr>"
    by (simp add: u)
  from V[THEN conjunct2, THEN conjunct2, THEN conjunct2, THEN conjunct2, rule_format, OF s,
      of "[0, 1, 2]"]
  have "length [0, 1, 2::nat] = min 5 3 \<and> length [0, 1, 2::nat] \<le> 5 \<and> length [0, 1, 2::nat] \<le> 3"
    by simp
  with a s show ?thesis by (intro conjI) simp_all
qed

lemma parse_seen_fst_out:
  "fst (parse_seen len ts seen out) = fst (parse_seen len ts seen out')"
proof (induction len ts seen out arbitrary: out' rule: parse_seen.induct)
  case (4 len k ts seen out)
  show ?case
  proof (cases "int k - 1 < 0 \<or> int len \<le> int k - 1")
    case True
    from 4(1)[OF refl True, of "out' @ [Not_in_the_list (int k - 1 + 1)]"] True
    show ?thesis by (simp add: Let_def)
  next
    case False
    from 4(2)[OF refl False, of out'] False show ?thesis by (simp add: Let_def)
  qed
qed simp_all

lemma parse_seen_skip:
  "k = 0 \<or> len < k \<Longrightarrow>
   fst (parse_seen len (ts1 @ Digits k # ts2) seen out) = fst (parse_seen len (ts1 @ ts2) seen out)"
proof (induction ts1 arbitrary: seen out)
  case Nil
  then have "int k - 1 < 0 \<or> int len \<le> int k - 1" by auto
  then show ?case using parse_seen_fst_out[of len ts2 seen] by (simp add: Let_def)
next
  case (Cons t ts1)
  then show ?case by (cases t) (simp_all add: Let_def)
qed

lemma parse_seen_None: "\<not> list_all good toks \<Longrightarrow> fst (parse_seen len toks seen out) = None"
proof (induction len toks seen out rule: parse_seen.induct)
  case (4 len k ts seen out)
  then show ?case by (cases "int k - 1 < 0 \<or> int len \<le> int k - 1") (simp_all add: Let_def)
qed simp_all

lemma parse_seen_snd: "snd (parse_seen len toks seen out) = out @ parse_events len toks"
proof (induction len toks seen out rule: parse_seen.induct)
  case (4 len k ts seen out)
  show ?case
  proof (cases "int k - 1 < 0 \<or> int len \<le> int k - 1")
    case True
    then have "k = 0 \<or> len < k" by auto
    with 4(1)[OF refl True] True show ?thesis by (simp add: Let_def)
  next
    case False
    then have "\<not> (k = 0 \<or> len < k)" by auto
    with 4(2)[OF refl False] False show ?thesis by (simp add: Let_def)
  qed
qed simp_all

lemma parse_events_no_error: "Error_processing \<notin> set (parse_events len toks)"
  by (induction len toks rule: parse_events.induct) simp_all

lemma parse_events_no_more: "No_more_new j \<notin> set (parse_events len toks)"
  by (induction len toks rule: parse_events.induct) simp_all

lemma parse_events_invalid:
  "list_all good ts1 \<Longrightarrow> k = 0 \<or> len < k \<Longrightarrow>
   Not_in_the_list (int k) \<in> set (parse_events len (ts1 @ Digits k # ts2))"
proof (induction ts1)
  case Nil
  then show ?case by simp
next
  case (Cons t ts1)
  then show ?case by (cases t) simp_all
qed

lemma parse_seen_skip_text:
  "fst (parse_seen len (ts1 @ NotDigits s # ts2) seen out) = fst (parse_seen len (ts1 @ ts2) seen out)"
proof (induction ts1 arbitrary: seen out)
  case Nil
  show ?case using parse_seen_fst_out[of len ts2 seen] by simp
next
  case (Cons t ts1)
  then show ?case by (cases t) (simp_all add: Let_def)
qed

lemma parse_events_text:
  "list_all good ts1 \<Longrightarrow>
   Not_a_valid_number s \<in> set (parse_events len (ts1 @ NotDigits s # ts2))"
proof (induction ts1)
  case Nil
  then show ?case by simp
next
  case (Cons t ts1)
  then show ?case by (cases t) simp_all
qed

lemma replace_seen_valid:
  "\<forall>i\<in>set idxs. i < length (display_indices w) \<Longrightarrow>
   \<exists>w' ev. replace_seen n idxs w out = Inr (w', out @ ev) \<and>
     length (display_indices w') = length (display_indices w) \<and>
     Error_processing \<notin> set ev"
proof (induction idxs arbitrary: w out)
  case Nil
  then show ?case by simp
next
  case (Cons i idxs)
  show ?case
  proof (cases "next_index w < n")
    case True
    let ?w = "\<lparr>display_indices = (display_indices w)[i := next_index w],
               next_index = next_index w + 1\<rparr>"
    from Cons.prems have "\<forall>j\<in>set idxs. j < length (display_indices ?w)" by simp
    from Cons.IH[OF this, of out] obtain w' ev where
      r: "replace_seen n idxs ?w out = Inr (w', out @ ev)"
      and l: "length (display_indices w') = length (display_indices ?w)"
      and e: "Error_processing \<notin> set ev" by blast
    from Cons.prems have i: "i < length (display_indices w)" by simp
    from r True i have "replace_seen n (i # idxs) w out = Inr (w', out @ ev)" by simp
    moreover from l have "length (display_indices w') = length (display_indices w)" by simp
    ultimately show ?thesis using e by blast
  next
    case False
    from Cons.prems have "\<forall>j\<in>set idxs. j < length (display_indices w)" by simp
    from Cons.IH[OF this, of "out @ [No_more_new (i + 1)]"] obtain w' ev where
      r: "replace_seen n idxs w (out @ [No_more_new (i + 1)]) = Inr (w', (out @ [No_more_new (i + 1)]) @ ev)"
      and l: "length (display_indices w') = length (display_indices w)"
      and e: "Error_processing \<notin> set ev" by blast
    from r False have "replace_seen n (i # idxs) w out = Inr (w', out @ (No_more_new (i + 1) # ev))"
      by simp
    moreover from e have "Error_processing \<notin> set (No_more_new (i + 1) # ev)" by simp
    ultimately show ?thesis using l by blast
  qed
qed

lemma replace_seen_exhausted:
  "\<not> next_index w < n \<Longrightarrow>
   replace_seen n idxs w out = Inr (w, out @ map (\<lambda>i. No_more_new (i + 1)) idxs)"
  by (induction idxs arbitrary: out) simp_all

lemma replace_seen_fst_out:
  "map_sum fst fst (replace_seen n idxs w out) = map_sum fst fst (replace_seen n idxs w out')"
proof (induction idxs arbitrary: w out out')
  case Nil
  show ?case by simp
next
  case (Cons i idxs)
  show ?case
  proof (cases "next_index w < n")
    case True
    show ?thesis
    proof (cases "i < length (display_indices w)")
      case True
      with \<open>next_index w < n\<close>
        Cons.IH[of "\<lparr>display_indices = (display_indices w)[i := next_index w],
                    next_index = next_index w + 1\<rparr>" out out']
      show ?thesis by (simp only: replace_seen.simps if_True)
    next
      case False
      with \<open>next_index w < n\<close> show ?thesis by simp
    qed
  next
    case False
    with Cons.IH[of w "out @ [No_more_new (i + 1)]" "out' @ [No_more_new (i + 1)]"]
    show ?thesis by (simp only: replace_seen.simps if_False)
  qed
qed

lemma mark_seen_snd_parse:
  "set (parse_events (length (display_indices w)) toks) \<subseteq> set (snd (mark_seen n w toks))"
proof -
  let ?len = "length (display_indices w)"
  obtain r out where p: "parse_seen ?len toks [] [] = (r, out)"
    by (cases "parse_seen ?len toks [] []") auto
  with parse_seen_snd[of ?len toks "[]" "[]"] have o: "out = parse_events ?len toks" by simp
  show ?thesis
  proof (cases r)
    case None
    with p o show ?thesis by (auto simp: mark_seen_def)
  next
    case (Some idxs)
    from parse_seen_bad_or[of "[]" ?len toks "[]"] p Some
    have "\<forall>i\<in>set idxs. i < ?len" by simp
    from replace_seen_valid[OF this, of n out] obtain w' ev where
      "replace_seen n idxs w out = Inr (w', out @ ev)" by blast
    with p o Some show ?thesis by (auto simp: mark_seen_def)
  qed
qed

lemma mark_seen_good:
  assumes g: "list_all good toks"
  shows "\<exists>s w' ev. parse_seen (length (display_indices w)) toks [] [] =
           (Some s, parse_events (length (display_indices w)) toks) \<and>
         s = sorted_list_of_set (set (slots_of (length (display_indices w)) toks)) \<and>
         replace_seen n s w (parse_events (length (display_indices w)) toks) =
           Inr (w', parse_events (length (display_indices w)) toks @ ev) \<and>
         Error_processing \<notin> set ev \<and>
         mark_seen n w toks =
           (w', parse_events (length (display_indices w)) toks @ ev @
                (if s = [] then [No_valid_selections] else []))"
proof -
  let ?len = "length (display_indices w)"
  let ?s = "sorted_list_of_set (set (slots_of ?len toks))"
  have f: "fst (parse_seen ?len toks [] []) = Some ?s" by (rule parse_seen_sorted_list[OF g])
  have s: "snd (parse_seen ?len toks [] []) = parse_events ?len toks"
    by (simp add: parse_seen_snd)
  from f s have p: "parse_seen ?len toks [] [] = (Some ?s, parse_events ?len toks)"
    by (metis prod.collapse)
  have "\<forall>i\<in>set ?s. i < ?len" by (simp add: slots_of_lt)
  from replace_seen_valid[OF this, of n "parse_events ?len toks"] obtain w' ev where
    r: "replace_seen n ?s w (parse_events ?len toks) = Inr (w', parse_events ?len toks @ ev)"
    and e: "Error_processing \<notin> set ev" by blast
  have "mark_seen n w toks =
     (w', parse_events ?len toks @ ev @ (if ?s = [] then [No_valid_selections] else []))"
    unfolding mark_seen_def p using r by simp
  with p r e show ?thesis by blast
qed

lemma mark_seen_bad:
  assumes "\<not> list_all good toks"
  shows "mark_seen n w toks = (w, parse_events (length (display_indices w)) toks @ [Error_processing])"
proof -
  let ?len = "length (display_indices w)"
  from parse_seen_None[OF assms, of ?len "[]" "[]"] parse_seen_snd[of ?len toks "[]" "[]"]
  have "parse_seen ?len toks [] [] = (None, parse_events ?len toks)"
    by (metis prod.collapse append_Nil)
  then show ?thesis by (simp add: mark_seen_def)
qed

lemma mark_seen_fst:
  "fst (mark_seen n w toks) =
    (case fst (parse_seen (length (display_indices w)) toks [] []) of
       None \<Rightarrow> w
     | Some s \<Rightarrow> (case replace_seen n s w [] of Inl (w', _) \<Rightarrow> w' | Inr (w', _) \<Rightarrow> w'))"
proof -
  let ?len = "length (display_indices w)"
  obtain r out where p: "parse_seen ?len toks [] [] = (r, out)"
    by (cases "parse_seen ?len toks [] []") auto
  show ?thesis
  proof (cases r)
    case None
    with p show ?thesis by (simp add: mark_seen_def)
  next
    case (Some s)
    from replace_seen_fst_out[of n s w out "[]"]
    show ?thesis unfolding mark_seen_def p Some
      by (cases "replace_seen n s w out"; cases "replace_seen n s w []") auto
  qed
qed

lemma slots_of_mem:
  "Digits k \<in> set toks \<Longrightarrow> 0 < k \<Longrightarrow> k \<le> len \<Longrightarrow> k - 1 \<in> set (slots_of len toks)"
proof (induction len toks rule: slots_of.induct)
  case (2 len j ts)
  then show ?case by (cases "j = k") auto
qed auto

lemma slots_of_numbers:
  "slots_of len toks = map (\<lambda>p. p - 1) (filter (\<lambda>p. 0 < p \<and> p \<le> len) (numbers_of toks))"
  by (induction len toks rule: slots_of.induct) simp_all

lemma strict_sorted_slots:
  "sorted_wrt (<) ys \<Longrightarrow>
   sorted_wrt (<) (map (\<lambda>p. p - 1) (filter (\<lambda>p. 0 < p \<and> p \<le> len) (ys :: nat list)))"
proof (induction ys)
  case Nil
  show ?case by simp
next
  case (Cons y ys)
  then have ih: "sorted_wrt (<) (map (\<lambda>p. p - 1) (filter (\<lambda>p. 0 < p \<and> p \<le> len) ys))"
    and gt: "\<forall>x\<in>set ys. y < x" by simp_all
  show ?case
  proof (cases "0 < y \<and> y \<le> len")
    case True
    from gt True have lt: "\<forall>x\<in>set ys. y - 1 < x - 1" by auto
    from True have "filter (\<lambda>p. 0 < p \<and> p \<le> len) (y # ys) =
        y # filter (\<lambda>p. 0 < p \<and> p \<le> len) ys" by simp
    with ih lt show ?thesis by simp
  next
    case False
    then have "filter (\<lambda>p. 0 < p \<and> p \<le> len) (y # ys) = filter (\<lambda>p. 0 < p \<and> p \<le> len) ys"
      by simp
    with ih show ?thesis by (simp only:)
  qed
qed

lemma sorted_slots_commute:
  "sorted_list_of_set (set (map (\<lambda>p. p - 1) (filter (\<lambda>p. 0 < p \<and> p \<le> len) xs))) =
   map (\<lambda>p. p - 1) (filter (\<lambda>p. 0 < p \<and> p \<le> len) (sorted_list_of_set (set (xs :: nat list))))"
proof -
  let ?f = "\<lambda>ys. map (\<lambda>p. p - 1) (filter (\<lambda>p. 0 < p \<and> p \<le> len) ys)"
  let ?ys = "sorted_list_of_set (set xs)"
  have "sorted_wrt (<) (?f ?ys)" by (rule strict_sorted_slots[OF strict_sorted_list_of_set])
  then have "sorted (?f ?ys)" "distinct (?f ?ys)" by (simp_all add: strict_sorted_iff)
  then have "sorted_list_of_set (set (?f ?ys)) = ?f ?ys"
    by (rule sorted_list_of_set.idem_if_sorted_distinct)
  moreover have "set (?f ?ys) = set (?f xs)" by simp
  ultimately show ?thesis by simp
qed

lemma markSeen_steps_replace:
  "length (display_indices w) = len \<Longrightarrow>
   \<exists>ev. replace_seen n (map (\<lambda>p. p - 1) (filter (\<lambda>p. 0 < p \<and> p \<le> len) ps)) w out =
           Inr (markSeen_steps n ps w, ev)"
proof (induction ps arbitrary: w out)
  case Nil
  show ?case by simp
next
  case (Cons p ps)
  let ?idxs = "map (\<lambda>p. p - 1) (filter (\<lambda>p. 0 < p \<and> p \<le> len) ps)"
  show ?case
  proof (cases "0 < p \<and> p \<le> len")
    case False
    then have f: "map (\<lambda>p. p - 1) (filter (\<lambda>p. 0 < p \<and> p \<le> len) (p # ps)) = ?idxs"
      by simp
    from False Cons.prems have "p < 1 \<or> length (display_indices w) < p" by auto
    then have m: "markSeen_steps n (p # ps) w = markSeen_steps n ps w" by simp
    from Cons.IH[OF Cons.prems, of out] show ?thesis unfolding f m .
  next
    case True
    then have f: "map (\<lambda>p. p - 1) (filter (\<lambda>p. 0 < p \<and> p \<le> len) (p # ps)) = (p - 1) # ?idxs"
      by simp
    from True Cons.prems have v: "\<not> (p < 1 \<or> length (display_indices w) < p)"
      and i: "p - 1 < length (display_indices w)" by auto
    show ?thesis
    proof (cases "next_index w < n")
      case True
      let ?w = "\<lparr>display_indices = (display_indices w)[p - 1 := next_index w],
                 next_index = next_index w + 1\<rparr>"
      from Cons.prems have "length (display_indices ?w) = len" by simp
      from Cons.IH[OF this, of out] obtain ev where
        r: "replace_seen n ?idxs ?w out = Inr (markSeen_steps n ps ?w, ev)" by blast
      from v True have m: "markSeen_steps n (p # ps) w = markSeen_steps n ps ?w"
        by (simp add: Let_def)
      from True i have "replace_seen n ((p - 1) # ?idxs) w out = replace_seen n ?idxs ?w out"
        by simp
      with r m show ?thesis unfolding f by simp
    next
      case False
      from Cons.IH[OF Cons.prems, of "out @ [No_more_new (p - 1 + 1)]"] obtain ev where
        r: "replace_seen n ?idxs w (out @ [No_more_new (p - 1 + 1)]) =
              Inr (markSeen_steps n ps w, ev)" by blast
      from v False have m: "markSeen_steps n (p # ps) w = markSeen_steps n ps w"
        by (simp add: Let_def)
      from False have "replace_seen n ((p - 1) # ?idxs) w out =
          replace_seen n ?idxs w (out @ [No_more_new (p - 1 + 1)])" by simp
      with r m show ?thesis unfolding f by simp
    qed
  qed
qed

lemma markSeen_spec_example:
  "markSeen_spec 6 {4, 2} \<lparr>display_indices = [0, 1, 2, 3, 4], next_index = 5\<rparr> =
     \<lparr>display_indices = [0, 5, 2, 3, 4], next_index = 6\<rparr>"
proof -
  have "sorted_list_of_set {4, 2::nat} = [2, 4]"
    using sorted_list_of_set.idem_if_sorted_distinct[of "[2, 4::nat]"] by (simp add: insert_commute)
  then show ?thesis by (simp add: markSeen_spec_def)
qed

text \<open>
  Claim C2. A round visits the marked positions in increasing order, whatever the order
  in which they were typed: for entries on which \<open>int\<close> does not raise, the window after
  \<open>mark_seen\<close> is the window the specification's \<open>markSeen\<close> yields on the set of
  numbers typed. For a frame of six rows with rows 0 to 4 on screen and the cursor at 5,
  marking positions 2 and 4 (typed in either order) puts row 5 at position 2, leaves
  position 4 as it was and reports that no new recommendation is left for position 4.
\<close>

theorem mark_seen_ascending:
  "(list_all good toks \<longrightarrow>
      fst (mark_seen n w toks) = markSeen_spec n (set (numbers_of toks)) w) \<and>
   mark_seen 6 \<lparr>display_indices = [0, 1, 2, 3, 4], next_index = 5\<rparr> [Digits 2, Digits 4] =
     (\<lparr>display_indices = [0, 5, 2, 3, 4], next_index = 6\<rparr>, [No_more_new 4]) \<and>
   mark_seen 6 \<lparr>display_indices = [0, 1, 2, 3, 4], next_index = 5\<rparr> [Digits 4, Digits 2] =
     (\<lparr>display_indices = [0, 5, 2, 3, 4], next_index = 6\<rparr>, [No_more_new 4])"
proof (intro conjI impI)
  assume g: "list_all good toks"
  let ?len = "length (display_indices w)"
  let ?s = "sorted_list_of_set (set (slots_of ?len toks))"
  have s: "?s = map (\<lambda>p. p - 1) (filter (\<lambda>p. 0 < p \<and> p \<le> ?len)
              (sorted_list_of_set (set (numbers_of toks))))"
    by (simp only: slots_of_numbers sorted_slots_commute)
  from markSeen_steps_replace[OF refl, where n = n and w = w and out = "[]"
      and ps = "sorted_list_of_set (set (numbers_of toks))"]
  obtain ev where "replace_seen n ?s w [] = Inr (markSeen_spec n (set (numbers_of toks)) w, ev)"
    unfolding s markSeen_spec_def by blast
  then show "fst (mark_seen n w toks) = markSeen_spec n (set (numbers_of toks)) w"
    by (simp add: mark_seen_fst parse_seen_sorted_list[OF g])
next
  show "mark_seen 6 \<lparr>display_indices = [0, 1, 2, 3, 4], next_index = 5\<rparr> [Digits 2, Digits 4] =
     (\<lparr>display_indices = [0, 5, 2, 3, 4], next_index = 6\<rparr>, [No_more_new 4])"
    by (simp add: mark_seen_def)
  show "mark_seen 6 \<lparr>display_indices = [0, 1, 2, 3, 4], next_index = 5\<rparr> [Digits 4, Digits 2] =
     (\<lparr>display_indices = [0, 5, 2, 3, 4], next_index = 6\<rparr>, [No_more_new 4])"
    by (simp add: mark_seen_def)
qed

text \<open>The theorem at the entries \<open>4, 2\<close> of the example.\<close>

theorem mark_seen_ascending_witness:
  "list_all good [Digits 4, Digits 2] \<and>
   fst (mark_seen 6 \<lparr>display_indices = [0, 1, 2, 3, 4], next_index = 5\<rparr> [Digits 4, Digits 2]) =
     \<lparr>display_indices = [0, 5, 2, 3, 4], next_index = 6\<rparr>"
proof -
  have g: "list_all good [Digits 4, Digits 2]" by simp
  from mark_seen_ascending[of "[Digits 4, Digits 2]" 6
      "\<lparr>display_indices = [0, 1, 2, 3, 4], next_index = 5\<rparr>", THEN conjunct1, rule_format, OF g]
  have "fst (mark_seen 6 \<lparr>display_indices = [0, 1, 2, 3, 4], next_index = 5\<rparr> [Digits 4, Digits 2]) =
     markSeen_spec 6 {4, 2} \<lparr>display_indices = [0, 1, 2, 3, 4], next_index = 5\<rparr>" by simp
  with g show ?thesis by (simp only: markSeen_spec_example simp_thms)
qed

text \<open>
  Claim C3. In every round: an entry naming a position outside \<open>[1, len(display_indices)]\<close>
  changes nothing (the window is the one the round yields without that entry) and is
  reported as not in the list; an entry that is not a string of digits, such as a negative
  number, likewise changes nothing and is reported as not a valid number; when the cursor has reached the end of the frame the window
  is unchanged and every valid position is reported as having no replacement; without any
  valid position the window is unchanged and the round reports that no valid selection
  was made. None of these raises: when \<open>int\<close> raises on no entry the error line is never
  printed, and when it does raise the exception is caught and the window is unchanged.
\<close>

theorem mark_seen_outcomes:
  "(k = 0 \<or> length (display_indices w) < k \<longrightarrow>
      fst (mark_seen n w (ts1 @ Digits k # ts2)) = fst (mark_seen n w (ts1 @ ts2)) \<and>
      (list_all good ts1 \<longrightarrow>
         Not_in_the_list (int k) \<in> set (snd (mark_seen n w (ts1 @ Digits k # ts2))))) \<and>
   (fst (mark_seen n w (ts1 @ NotDigits s # ts2)) = fst (mark_seen n w (ts1 @ ts2)) \<and>
    (list_all good ts1 \<longrightarrow>
       Not_a_valid_number s \<in> set (snd (mark_seen n w (ts1 @ NotDigits s # ts2))))) \<and>
   (next_index w = n \<longrightarrow>
      fst (mark_seen n w toks) = w \<and>
      (list_all good toks \<and> Digits k \<in> set toks \<and> 0 < k \<and> k \<le> length (display_indices w) \<longrightarrow>
         No_more_new k \<in> set (snd (mark_seen n w toks)))) \<and>
   mark_seen n w [] = (w, [No_valid_selections]) \<and>
   (list_all good toks \<and> slots_of (length (display_indices w)) toks = [] \<longrightarrow>
      fst (mark_seen n w toks) = w \<and> No_valid_selections \<in> set (snd (mark_seen n w toks))) \<and>
   (list_all good toks \<longrightarrow> Error_processing \<notin> set (snd (mark_seen n w toks))) \<and>
   (\<not> list_all good toks \<longrightarrow> fst (mark_seen n w toks) = w)"
proof (intro conjI impI)
  let ?len = "length (display_indices w)"
  show "mark_seen n w [] = (w, [No_valid_selections])" by (simp add: mark_seen_def)
  show "fst (mark_seen n w (ts1 @ NotDigits s # ts2)) = fst (mark_seen n w (ts1 @ ts2))"
    by (simp only: mark_seen_fst parse_seen_skip_text)
  show "Not_a_valid_number s \<in> set (snd (mark_seen n w (ts1 @ NotDigits s # ts2)))"
    if "list_all good ts1"
    using parse_events_text[OF that, of s ?len ts2]
      mark_seen_snd_parse[of w "ts1 @ NotDigits s # ts2" n] by blast
  show "fst (mark_seen n w toks) = w" if "\<not> list_all good toks"
    using mark_seen_bad[OF that, of n w] by simp
  show "Error_processing \<notin> set (snd (mark_seen n w toks))" if g: "list_all good toks"
  proof -
    from mark_seen_good[OF g, of w n] obtain s :: "nat list" and w' ev where
      "Error_processing \<notin> set ev"
      "mark_seen n w toks = (w', parse_events ?len toks @ ev @
          (if s = [] then [No_valid_selections] else []))" by blast
    then show ?thesis by (simp add: parse_events_no_error)
  qed
  {
    assume k: "k = 0 \<or> ?len < k"
    show "fst (mark_seen n w (ts1 @ Digits k # ts2)) = fst (mark_seen n w (ts1 @ ts2))"
      by (simp only: mark_seen_fst parse_seen_skip[OF k])
    assume g: "list_all good ts1"
    let ?t = "ts1 @ Digits k # ts2"
    have m: "Not_in_the_list (int k) \<in> set (parse_events ?len ?t)"
      by (rule parse_events_invalid[OF g k])
    show "Not_in_the_list (int k) \<in> set (snd (mark_seen n w ?t))"
    proof (cases "list_all good ?t")
      case True
      from mark_seen_good[OF True, of w n] obtain s :: "nat list" and w' ev where
        "mark_seen n w ?t = (w', parse_events ?len ?t @ ev @
            (if s = [] then [No_valid_selections] else []))" by blast
      with m show ?thesis by simp
    next
      case False
      from mark_seen_bad[OF False, of n w] m show ?thesis by simp
    qed
  }
  {
    assume e: "next_index w = n"
    then have x: "\<not> next_index w < n" by simp
    show "fst (mark_seen n w toks) = w"
      by (simp add: mark_seen_fst replace_seen_exhausted[OF x] split: option.split)
    assume h: "list_all good toks \<and> Digits k \<in> set toks \<and> 0 < k \<and> k \<le> ?len"
    then have g: "list_all good toks" by simp
    from mark_seen_good[OF g, of w n] obtain s w' ev where
      s: "s = sorted_list_of_set (set (slots_of ?len toks))"
      and r: "replace_seen n s w (parse_events ?len toks) = Inr (w', parse_events ?len toks @ ev)"
      and m: "mark_seen n w toks = (w', parse_events ?len toks @ ev @
            (if s = [] then [No_valid_selections] else []))" by blast
    from r replace_seen_exhausted[OF x, of s "parse_events ?len toks"]
    have ev: "ev = map (\<lambda>i. No_more_new (i + 1)) s" by simp
    from h slots_of_mem[of k toks ?len] have "k - 1 \<in> set s" by (simp add: s)
    then have "No_more_new (k - 1 + 1) \<in> set ev" unfolding ev by (simp add: image_iff)
    moreover from h have "k - 1 + 1 = k" by simp
    ultimately have "No_more_new k \<in> set ev" by simp
    with m show "No_more_new k \<in> set (snd (mark_seen n w toks))" by simp
  }
  {
    assume h: "list_all good toks \<and> slots_of ?len toks = []"
    then have g: "list_all good toks" and e: "slots_of ?len toks = []" by simp_all
    from mark_seen_good[OF g, of w n] obtain s w' ev where
      s: "s = sorted_list_of_set (set (slots_of ?len toks))"
      and r: "replace_seen n s w (parse_events ?len toks) = Inr (w', parse_events ?len toks @ ev)"
      and m: "mark_seen n w toks = (w', parse_events ?len toks @ ev @
            (if s = [] then [No_valid_selections] else []))" by blast
    from s e have n: "s = []" by simp
    with r have "w' = w" by simp
    with m n show "fst (mark_seen n w toks) = w" by simp
    from m n show "No_valid_selections \<in> set (snd (mark_seen n w toks))" by simp
  }
qed

text \<open>
  The theorem at a frame of six rows whose cursor is at the end: position 9 is invalid,
  position 2 is valid but has no replacement, \<open>-1\<close> is not a string of digits, the
  entries \<open>0\<close> and \<open>x\<close> give no valid position, and an entry on which \<open>int\<close> raises leaves the window alone.
\<close>

theorem mark_seen_outcomes_witness:
  "mark_seen 6 \<lparr>display_indices = [0, 5, 2, 3, 4], next_index = 6\<rparr> [Digits 2, Digits 9] =
     (\<lparr>display_indices = [0, 5, 2, 3, 4], next_index = 6\<rparr>, [Not_in_the_list 9, No_more_new 2]) \<and>
   fst (mark_seen 6 \<lparr>display_indices = [0, 5, 2, 3, 4], next_index = 6\<rparr> [Digits 2, Digits 9]) =
     fst (mark_seen 6 \<lparr>display_indices = [0, 5, 2, 3, 4], next_index = 6\<rparr> [Digits 2]) \<and>
   Not_in_the_list 9 \<in> set (snd (mark_seen 6 \<lparr>display_indices = [0, 5, 2, 3, 4], next_index = 6\<rparr>
       [Digits 2, Digits 9])) \<and>
   No_more_new 2 \<in> set (snd (mark_seen 6 \<lparr>display_indices = [0, 5, 2, 3, 4], next_index = 6\<rparr>
       [Digits 2, Digits 9])) \<and>
   Error_processing \<notin> set (snd (mark_seen 6 \<lparr>display_indices = [0, 5, 2, 3, 4], next_index = 6\<rparr>
       [Digits 2, Digits 9])) \<and>
   Not_a_valid_number ''-1'' \<in> set (snd (mark_seen 6
       \<lparr>display_indices = [0, 5, 2, 3, 4], next_index = 6\<rparr> [Digits 2, NotDigits ''-1''])) \<and>
   fst (mark_seen 6 \<lparr>display_indices = [0, 5, 2, 3, 4], next_index = 6\<rparr> [Digits 0, NotDigits ''x'']) =
     \<lparr>display_indices = [0, 5, 2, 3, 4], next_index = 6\<rparr> \<and>
   No_valid_selections \<in> set (snd (mark_seen 6 \<lparr>display_indices = [0, 5, 2, 3, 4], next_index = 6\<rparr>
       [Digits 0, NotDigits ''x''])) \<and>
   fst (mark_seen 2 \<lparr>display_indices = [0, 1], next_index = 2\<rparr> [BadDigits ''x'']) =
     \<lparr>display_indices = [0, 1], next_index = 2\<rparr>"
proof -
  let ?w = "\<lparr>display_indices = [0, 5, 2, 3, 4], next_index = 6\<rparr>"
  let ?t = "[Digits 2, Digits 9]"
  have e: "mark_seen 6 ?w ?t = (?w, [Not_in_the_list 9, No_more_new 2])"
    by (simp add: mark_seen_def)
  have k: "(9::nat) = 0 \<or> length (display_indices ?w) < 9" by simp
  have g1: "list_all good [Digits 2]" by simp
  note A = mark_seen_outcomes[where k = 9 and w = ?w and n = 6 and ?ts1.0 = "[Digits 2]"
      and ?ts2.0 = "[]" and toks = ?t and s = "''-1''"]
  note A1 = A[THEN conjunct1, rule_format, OF k]
  from A1 have a1: "fst (mark_seen 6 ?w ?t) = fst (mark_seen 6 ?w [Digits 2])" by simp
  from A1[THEN conjunct2, rule_format, OF g1]
  have a2: "Not_in_the_list 9 \<in> set (snd (mark_seen 6 ?w ?t))" by simp
  from A[THEN conjunct2, THEN conjunct1, THEN conjunct2, rule_format, OF g1]
  have a3: "Not_a_valid_number ''-1'' \<in> set (snd (mark_seen 6 ?w [Digits 2, NotDigits ''-1'']))"
    by simp
  have x: "next_index ?w = 6" by simp
  have h: "list_all good ?t \<and> Digits 2 \<in> set ?t \<and> 0 < (2::nat) \<and> 2 \<le> length (display_indices ?w)"
    by simp
  note B = mark_seen_outcomes[where k = 2 and w = ?w and n = 6 and ?ts1.0 = "[]"
      and ?ts2.0 = "[]" and toks = ?t and s = "[]", THEN conjunct2, THEN conjunct2]
  from B[THEN conjunct1, rule_format, OF x, THEN conjunct2, rule_format, OF h]
  have b: "No_more_new 2 \<in> set (snd (mark_seen 6 ?w ?t))" .
  have g: "list_all good ?t" by simp
  from B[THEN conjunct2, THEN conjunct2, THEN conjunct2, THEN conjunct1, rule_format, OF g]
  have d: "Error_processing \<notin> set (snd (mark_seen 6 ?w ?t))" .
  let ?u = "[Digits 0, NotDigits ''x'']"
  have hu: "list_all good ?u \<and> slots_of (length (display_indices ?w)) ?u = []" by simp
  from mark_seen_outcomes[where k = 2 and w = ?w and n = 6 and ?ts1.0 = "[]"
      and ?ts2.0 = "[]" and toks = ?u and s = "[]", THEN conjunct2, THEN conjunct2,
      THEN conjunct2, THEN conjunct2, THEN conjunct1, rule_format, OF hu]
  have c: "fst (mark_seen 6 ?w ?u) = ?w \<and> No_valid_selections \<in> set (snd (mark_seen 6 ?w ?u))" .
  let ?v = "\<lparr>display_indices = [0, 1], next_index = 2\<rparr>"
  have nb: "\<not> list_all good [BadDigits ''x'']" by simp
  from mark_seen_outcomes[where k = 2 and w = ?v and n = 2 and ?ts1.0 = "[]"
      and ?ts2.0 = "[]" and toks = "[BadDigits ''x'']" and s = "[]", THEN conjunct2,
      THEN conjunct2, THEN conjunct2, THEN conjunct2, THEN conjunct2, THEN conjunct2,
      rule_format, OF nb]
  have f: "fst (mark_seen 2 ?v [BadDigits ''x'']) = ?v" .
  from e a1 a2 a3 b d c f show ?thesis by (intro conjI) (simp_all only: simp_thms)
qed

section \<open>Properties of the pattern search\<close>

text \<open>
  On a pattern without special characters the search is the substring test up to case.
\<close>

lemma match_here_Lit:
  "match_here (map Lit pat) s = prefix (lower pat) (lower s)"
proof (induction pat arbitrary: s)
  case Nil
  show ?case by (simp add: lower_def)
next
  case (Cons p pat)
  show ?case
  proof (cases s)
    case Nil
    then show ?thesis by (simp add: lower_def)
  next
    case (Cons c cs)
    with Cons.IH[of cs] show ?thesis by (simp add: lower_def)
  qed
qed

lemma search_Lit: "search (map Lit pat) s = ci_substring pat s"
proof (induction s)
  case Nil
  show ?case by (cases pat) (simp_all add: ci_substring_def lower_def)
next
  case (Cons c cs)
  have "sublist (lower pat) (lower (c # cs)) =
        (prefix (lower pat) (lower (c # cs)) \<or> sublist (lower pat) (lower cs))"
    by (simp add: lower_def sublist_Cons_right)
  with Cons show ?case by (simp add: match_here_Lit ci_substring_def)
qed

lemma atoms_plain: "list_all (\<lambda>c. \<not> special c) pat \<Longrightarrow> map atom_of pat = map Lit pat"
  by (induction pat) (auto simp: atom_of_def special_def)

lemma plain_simple: "list_all (\<lambda>c. \<not> special c) pat \<Longrightarrow> simple pat"
  by (simp add: simple_def list_all_iff)

lemma re_compile_plain:
  "list_all (\<lambda>c. \<not> special c) pat \<Longrightarrow> re_compile rx pat = Some (ci_substring pat)"
proof -
  assume p: "list_all (\<lambda>c. \<not> special c) pat"
  have "search (map atom_of pat) = ci_substring pat"
    by (rule ext) (simp add: atoms_plain[OF p] search_Lit)
  with plain_simple[OF p] show ?thesis by (simp add: re_compile_def)
qed

lemma re_compile_empty: "re_compile rx [] = Some (\<lambda>s. True)"
proof -
  have "search [] = (\<lambda>s. True)"
  proof
    fix s show "search [] s = True" by (cases s) simp_all
  qed
  then show ?thesis by (simp add: re_compile_def simple_def)
qed

section \<open>Properties of \<open>check_oscar_status\<close>\<close>


text \<open>
  Claim C8 says the rows reported are exactly those whose film title contains the queried
  title as a substring up to case. That holds for a title without special characters
  (\<open>check_oscar_status_plain\<close>: one line per such row, in the order of the rows, with
  \<open>Winner\<close> exactly when the winner cell reads \<open>true\<close>). It fails for a title with a
  special character, because the title is compiled as a regular expression: the title
  \<open>W.\<close> is reported as the winner of the award of \<open>WALL-E\<close>, whose title does not
  contain it.
\<close>

theorem lookup_title_as_pattern:
  "check_oscar_status rx ''W.''
     (Some [\<lparr>film = Some ''WALL-E'', category = ''ANIMATED FEATURE FILM'', winner = CBool True\<rparr>]) =
     Inr (Some [''Winner for ANIMATED FEATURE FILM'']) \<and>
   \<not> ci_substring ''W.'' ''WALL-E''"
proof -
  have s: "simple ''W.''" by code_simp
  have m: "search (map atom_of ''W.'') ''WALL-E''" by code_simp
  have l: "oscar_line \<lparr>film = Some ''WALL-E'', category = ''ANIMATED FEATURE FILM'', winner = CBool True\<rparr> =
      ''Winner for ANIMATED FEATURE FILM''" by code_simp
  have n: "\<not> ci_substring ''W.'' ''WALL-E''" by code_simp
  from s m l n show ?thesis
    by (simp add: check_oscar_status_def re_compile_def str_contains_def)
qed




text \<open>
  Claim C10. When every row has a film title, the empty title matches every row: the
  lookup returns one line per row, in order, for a non-empty award frame (and \<open>None\<close>
  for an award frame without rows, which has nothing to report).
\<close>

theorem lookup_empty_title:
  "list_all (\<lambda>row. film row \<noteq> None) rows \<Longrightarrow>
   (\<exists>f. re_compile rx [] = Some f \<and> list_all (\<lambda>row. str_contains f (film row)) rows) \<and>
   (rows \<noteq> [] \<longrightarrow> check_oscar_status rx [] (Some rows) = Inr (Some (map oscar_line rows))) \<and>
   (rows = [] \<longrightarrow> check_oscar_status rx [] (Some rows) = Inr None)"
proof -
  assume a: "list_all (\<lambda>row. film row \<noteq> None) rows"
  let ?f = "\<lambda>s::string. True"
  from a have m: "list_all (\<lambda>row. str_contains ?f (film row)) rows"
    by (auto simp: list_all_iff str_contains_def)
  then have "filter (\<lambda>row. str_contains ?f (film row)) rows = rows"
    by (simp add: list_all_iff)
  then have "check_oscar_status rx [] (Some rows) =
      (if rows \<noteq> [] then Inr (Some (map oscar_line rows)) else Inr None)"
    by (simp add: check_oscar_status_def re_compile_empty)
  with m re_compile_empty[of rx] show ?thesis by (cases "rows = []") simp_all
qed

text \<open>The theorem at an award frame of two rows.\<close>

theorem lookup_empty_title_witness:
  "list_all (\<lambda>row. film row \<noteq> None)
     [\<lparr>film = Some ''Her'', category = ''BEST PICTURE'', winner = CBool False\<rparr>,
      \<lparr>film = Some ''Up'', category = ''MUSIC'', winner = CStr ''True''\<rparr>] \<and>
   check_oscar_status no_engine []
     (Some [\<lparr>film = Some ''Her'', category = ''BEST PICTURE'', winner = CBool False\<rparr>,
            \<lparr>film = Some ''Up'', category = ''MUSIC'', winner = CStr ''True''\<rparr>]) =
     Inr (Some [''Nominated for BEST PICTURE'', ''Winner for MUSIC''])"
proof -
  let ?rows = "[\<lparr>film = Some ''Her'', category = ''BEST PICTURE'', winner = CBool False\<rparr>,
      \<lparr>film = Some ''Up'', category = ''MUSIC'', winner = CStr ''True''\<rparr>]"
  have a: "list_all (\<lambda>row. film row \<noteq> None) ?rows" by simp
  have l: "map oscar_line ?rows = [''Nominated for BEST PICTURE'', ''Winner for MUSIC'']"
    by code_simp
  have n: "?rows \<noteq> []" by simp
  from lookup_empty_title[OF a, of no_engine, THEN conjunct2, THEN conjunct1, rule_format, OF n]
  have "check_oscar_status no_engine [] (Some ?rows) = Inr (Some (map oscar_line ?rows))" .
  with a l show ?thesis by (simp only: simp_thms)
qed

section \<open>Properties of \<open>filter_movies\<close>\<close>

lemma filter_movies_guards:
  "filter_movies rx df p = Inr res \<Longrightarrow> aligned df \<and> (df \<noteq> [] \<or> \<not> no_filter p)"
  by (auto simp: filter_movies_def split: if_splits)

lemma filter_movies_empty_no_filter: "no_filter p \<Longrightarrow> filter_movies rx [] p = Inl Key_error"
  by (simp add: filter_movies_def)

lemma filter_movies_not_aligned:
  "df \<noteq> [] \<Longrightarrow> \<not> aligned df \<Longrightarrow> filter_movies rx df p = Inl Indexing_error"
  by (simp add: filter_movies_def)

lemma filter_movies_default:
  "aligned df \<Longrightarrow> df \<noteq> [] \<or> \<not> no_filter p \<Longrightarrow>
   fav_actor p = None \<or> fav_actor p = Some [] \<Longrightarrow>
   filter_movies rx df p =
     Inr \<lparr>no_actor_match = False,
          sorted_df = sort_key (\<lambda>row. (- Rating row, - Votes row)) (filter (mask p) df)\<rparr>"
  by (auto simp: filter_movies_def Let_def)

lemma filter_movies_actor:
  "aligned df \<Longrightarrow> df \<noteq> [] \<or> \<not> no_filter p \<Longrightarrow>
   fav_actor p = Some a \<Longrightarrow> a \<noteq> [] \<Longrightarrow> re_compile rx a = Some f \<Longrightarrow>
   filter_movies rx df p =
     Inr \<lparr>no_actor_match = \<not> list_ex (\<lambda>row. str_contains f (Actors row)) (filter (mask p) df),
          sorted_df = sort_key (\<lambda>row. (\<not> str_contains f (Actors row), - Rating row, - Votes row))
                        (filter (mask p) df)\<rparr>"
  by (auto simp: filter_movies_def Let_def)

lemma sorted_bool_first:
  "sorted (map (\<lambda>x. (b x, k x)) xs) \<Longrightarrow> xs = filter (\<lambda>x. \<not> b x) xs @ filter b xs"
proof (induction xs)
  case Nil
  show ?case by simp
next
  case (Cons x xs)
  then have ih: "xs = filter (\<lambda>x. \<not> b x) xs @ filter b xs"
    and le: "\<forall>y\<in>set xs. (b x, k x) \<le> (b y, k y)" by simp_all
  show ?case
  proof (cases "b x")
    case True
    with le have "\<forall>y\<in>set xs. b y" by (auto simp: less_eq_prod_def)
    then have "filter (\<lambda>x. \<not> b x) xs = []" "filter b xs = xs" by (simp_all add: filter_empty_conv)
    with True show ?thesis by simp
  next
    case False
    with ih show ?thesis by simp
  qed
qed

lemma filter_movies_actor_first:
  assumes "aligned df" "df \<noteq> [] \<or> \<not> no_filter p"
    and "fav_actor p = Some a" "a \<noteq> []" "re_compile rx a = Some f"
  shows "\<exists>res. filter_movies rx df p = Inr res \<and>
     sorted_df res = filter (\<lambda>row. str_contains f (Actors row)) (sorted_df res) @
                     filter (\<lambda>row. \<not> str_contains f (Actors row)) (sorted_df res)"
proof -
  let ?k = "\<lambda>row. (\<not> str_contains f (Actors row), - Rating row, - Votes row)"
  let ?s = "sort_key ?k (filter (mask p) df)"
  have "sorted (map ?k ?s)" by (rule sorted_sort_key)
  from sorted_bool_first[OF this] have "?s = filter (\<lambda>row. str_contains f (Actors row)) ?s @
      filter (\<lambda>row. \<not> str_contains f (Actors row)) ?s" by simp
  with filter_movies_actor[OF assms] show ?thesis by simp
qed

lemma filter_movies_actor_first_plain:
  assumes "aligned df" "df \<noteq> [] \<or> \<not> no_filter p"
    and "fav_actor p = Some a" "a \<noteq> []" "list_all (\<lambda>c. \<not> special c) a"
  shows "\<exists>res. filter_movies rx df p = Inr res \<and>
     sorted_df res =
       filter (\<lambda>row. case Actors row of None \<Rightarrow> False | Some s \<Rightarrow> ci_substring a s) (sorted_df res) @
       filter (\<lambda>row. \<not> (case Actors row of None \<Rightarrow> False | Some s \<Rightarrow> ci_substring a s)) (sorted_df res)"
  using filter_movies_actor_first[OF assms(1-4) re_compile_plain[OF assms(5)]]
  by (simp add: str_contains_def)

text \<open>
  The sort is stable with respect to its own keys: the rows of the ranked list that share
  a rating and a vote count (and, when a favourite actor is given, the same value of
  \<open>actor_mask\<close>) are the rows of the catalog that pass the filter and share them, in
  the order of the catalog.
\<close>

lemma filter_movies_stable:
  "filter_movies rx df p = Inr res \<Longrightarrow>
   (fav_actor p = None \<or> fav_actor p = Some [] \<longrightarrow>
      filter (\<lambda>row. Rating row = r \<and> Votes row = v) (sorted_df res) =
      filter (\<lambda>row. mask p row \<and> Rating row = r \<and> Votes row = v) df) \<and>
   (\<forall>a f. fav_actor p = Some a \<and> a \<noteq> [] \<and> re_compile rx a = Some f \<longrightarrow>
      filter (\<lambda>row. str_contains f (Actors row) = b \<and> Rating row = r \<and> Votes row = v)
        (sorted_df res) =
      filter (\<lambda>row. mask p row \<and> str_contains f (Actors row) = b \<and> Rating row = r \<and> Votes row = v)
        df)"
proof (intro conjI impI allI)
  assume res: "filter_movies rx df p = Inr res"
  note g = filter_movies_guards[OF res]
  {
    assume d: "fav_actor p = None \<or> fav_actor p = Some []"
    let ?k = "\<lambda>row. (- Rating row, - Votes row)"
    from res filter_movies_default[OF g[THEN conjunct1] g[THEN conjunct2] d, of rx]
    have s: "sorted_df res = sort_key ?k (filter (mask p) df)" by auto
    have e: "(\<lambda>row. Rating row = r \<and> Votes row = v) = (\<lambda>row. ?k row = (- r, - v))" by auto
    have "filter (\<lambda>row. ?k row = (- r, - v)) (sort_key ?k (filter (mask p) df)) =
          filter (\<lambda>row. ?k row = (- r, - v)) (filter (mask p) df)"
      by (rule sort_key_stable)
    then show "filter (\<lambda>row. Rating row = r \<and> Votes row = v) (sorted_df res) =
      filter (\<lambda>row. mask p row \<and> Rating row = r \<and> Votes row = v) df"
      unfolding s e by simp
  }
  {
    fix a f
    assume h: "fav_actor p = Some a \<and> a \<noteq> [] \<and> re_compile rx a = Some f"
    let ?k = "\<lambda>row. (\<not> str_contains f (Actors row), - Rating row, - Votes row)"
    from h res filter_movies_actor[OF g[THEN conjunct1] g[THEN conjunct2], of a rx f]
    have s: "sorted_df res = sort_key ?k (filter (mask p) df)" by auto
    have e: "(\<lambda>row. str_contains f (Actors row) = b \<and> Rating row = r \<and> Votes row = v) =
             (\<lambda>row. ?k row = (\<not> b, - r, - v))" by auto
    have "filter (\<lambda>row. ?k row = (\<not> b, - r, - v)) (sort_key ?k (filter (mask p) df)) =
          filter (\<lambda>row. ?k row = (\<not> b, - r, - v)) (filter (mask p) df)"
      by (rule sort_key_stable)
    then show "filter (\<lambda>row. str_contains f (Actors row) = b \<and> Rating row = r \<and> Votes row = v)
        (sorted_df res) =
      filter (\<lambda>row. mask p row \<and> str_contains f (Actors row) = b \<and> Rating row = r \<and> Votes row = v)
        df"
      unfolding s e by simp
  }
qed

text \<open>
  For a favourite actor without special characters \<open>actor_mask\<close> is the substring test,
  and the sort is stable with respect to rating, vote count and that test.
\<close>

lemma filter_movies_stable_plain:
  assumes "filter_movies rx df p = Inr res"
    and "fav_actor p = Some a" "a \<noteq> []" "list_all (\<lambda>c. \<not> special c) a"
  shows "filter (\<lambda>row. (case Actors row of None \<Rightarrow> False | Some s \<Rightarrow> ci_substring a s) = b \<and>
            Rating row = r \<and> Votes row = v) (sorted_df res) =
         filter (\<lambda>row. mask p row \<and> (case Actors row of None \<Rightarrow> False | Some s \<Rightarrow> ci_substring a s) = b \<and>
            Rating row = r \<and> Votes row = v) df"
proof -
  from assms(2,3) re_compile_plain[OF assms(4), of rx]
  have "fav_actor p = Some a \<and> a \<noteq> [] \<and> re_compile rx a = Some (ci_substring a)" by simp
  from filter_movies_stable[OF assms(1), of r v b, THEN conjunct2, rule_format, OF this]
  show ?thesis by (simp add: str_contains_def)
qed

text \<open>
  On a frame whose labels the mask has, with only \<open>min_rating = r\<close> set, the ranked list
  holds exactly the rows of the catalog with rating at least \<open>r\<close>, each as often as the
  catalog has it.
\<close>

lemma filter_movies_min_rating:
  assumes "aligned df"
    and "genre p = None \<or> genre p = Some []"
    and "min_rating p = Some r"
    and "min_year p = None" and "max_year p = None" and "max_runtime p = None"
    and "fav_actor p = None \<or> fav_actor p = Some []"
  shows "\<exists>res. filter_movies rx df p = Inr res \<and>
     mset (sorted_df res) = mset (filter (\<lambda>row. r \<le> Rating row) df) \<and>
     (\<forall>row\<in>set (sorted_df res). r \<le> Rating row) \<and>
     (\<forall>row\<in>set df. r \<le> Rating row \<longrightarrow> row \<in> set (sorted_df res))"
proof -
  from assms(2-6) have m: "mask p = (\<lambda>row. r \<le> Rating row)"
    by (auto simp: mask_def fun_eq_iff)
  from assms(3) have n: "df \<noteq> [] \<or> \<not> no_filter p" by (simp add: no_filter_def)
  let ?res = "\<lparr>no_actor_match = False,
          sorted_df = sort_key (\<lambda>row. (- Rating row, - Votes row)) (filter (\<lambda>row. r \<le> Rating row) df)\<rparr>"
  from filter_movies_default[OF assms(1) n assms(7), of rx] m
  have "filter_movies rx df p = Inr ?res" by simp
  moreover have "mset (sorted_df ?res) = mset (filter (\<lambda>row. r \<le> Rating row) df)" by simp
  moreover have "\<forall>row\<in>set (sorted_df ?res). r \<le> Rating row" by simp
  moreover have "\<forall>row\<in>set df. r \<le> Rating row \<longrightarrow> row \<in> set (sorted_df ?res)" by simp
  ultimately show ?thesis by blast
qed

text \<open>
  Claim C5 says that every row whose actors contain the favourite actor as a substring up
  to case precedes every row whose actors do not. The rows that \<open>actor_mask\<close> marks do
  come first (\<open>filter_movies_actor_first\<close>), and for a name without special characters
  the mask is the substring test (\<open>filter_movies_actor_first_plain\<close>). For the name
  \<open>Jr.\<close> the mask is a regular expression search, in which the dot matches the comma of
  \<open>Cuba Gooding Jr, Ed Harris\<close>: that row, which does not contain the name, is ranked
  before the row of \<open>Robert Downey Jr.\<close>, which does.
\<close>

theorem filter_movies_actor_as_pattern:
  "filter_movies rx
     [\<lparr>Label = 0, Title = ''Iron Man'', Genre = [''Action''], Year = 2008, Rating = 7.9,
        Runtime = 126, Votes = 700, Actors = Some ''Robert Downey Jr., Jeff Bridges''\<rparr>,
      \<lparr>Label = 1, Title = ''Radio'', Genre = [''Drama''], Year = 2006, Rating = 8.1,
        Runtime = 109, Votes = 200, Actors = Some ''Cuba Gooding Jr, Ed Harris''\<rparr>]
     \<lparr>genre = None, min_rating = None, min_year = None, max_year = None, max_runtime = None,
      fav_actor = Some ''Jr.''\<rparr> =
   Inr \<lparr>no_actor_match = False, sorted_df =
     [\<lparr>Label = 1, Title = ''Radio'', Genre = [''Drama''], Year = 2006, Rating = 8.1,
        Runtime = 109, Votes = 200, Actors = Some ''Cuba Gooding Jr, Ed Harris''\<rparr>,
      \<lparr>Label = 0, Title = ''Iron Man'', Genre = [''Action''], Year = 2008, Rating = 7.9,
        Runtime = 126, Votes = 700, Actors = Some ''Robert Downey Jr., Jeff Bridges''\<rparr>]\<rparr> \<and>
   \<not> ci_substring ''Jr.'' ''Cuba Gooding Jr, Ed Harris'' \<and>
   ci_substring ''Jr.'' ''Robert Downey Jr., Jeff Bridges''"
proof -
  let ?p = "\<lparr>genre = None, min_rating = None, min_year = None, max_year = None,
             max_runtime = None, fav_actor = Some ''Jr.''\<rparr>"
  let ?df = "[\<lparr>Label = 0, Title = ''Iron Man'', Genre = [''Action''], Year = 2008, Rating = 7.9,
        Runtime = 126, Votes = 700, Actors = Some ''Robert Downey Jr., Jeff Bridges''\<rparr>,
      \<lparr>Label = 1, Title = ''Radio'', Genre = [''Drama''], Year = 2006, Rating = 8.1,
        Runtime = 109, Votes = 200, Actors = Some ''Cuba Gooding Jr, Ed Harris''\<rparr>]"
  let ?f = "search [Lit CHR ''J'', Lit CHR ''r'', Dot]"
  have c: "re_compile rx ''Jr.'' = Some ?f"
    by (simp add: re_compile_def simple_def special_def atom_of_def)
  have a: "?f ''Cuba Gooding Jr, Ed Harris''" by code_simp
  have b: "?f ''Robert Downey Jr., Jeff Bridges''" by code_simp
  have m: "mask ?p = (\<lambda>row. True)" by (simp add: mask_def fun_eq_iff)
  have n: "\<not> ci_substring ''Jr.'' ''Cuba Gooding Jr, Ed Harris''" by code_simp
  have y: "ci_substring ''Jr.'' ''Robert Downey Jr., Jeff Bridges''" by code_simp
  have al: "aligned ?df" by (simp add: aligned_def)
  have ne: "?df \<noteq> [] \<or> \<not> no_filter ?p" by simp
  have fa: "fav_actor ?p = Some ''Jr.''" by simp
  have nn: "''Jr.'' \<noteq> []" by simp
  have "filter_movies rx ?df ?p =
   Inr \<lparr>no_actor_match = False, sorted_df =
     [\<lparr>Label = 1, Title = ''Radio'', Genre = [''Drama''], Year = 2006, Rating = 8.1,
        Runtime = 109, Votes = 200, Actors = Some ''Cuba Gooding Jr, Ed Harris''\<rparr>,
      \<lparr>Label = 0, Title = ''Iron Man'', Genre = [''Action''], Year = 2008, Rating = 7.9,
        Runtime = 126, Votes = 700, Actors = Some ''Robert Downey Jr., Jeff Bridges''\<rparr>]\<rparr>"
    unfolding filter_movies_actor[OF al ne fa nn c]
    by (simp add: m a b str_contains_def less_eq_prod_def del: search.simps)
  with n y show ?thesis by (simp only: simp_thms)
qed

text \<open>
  Claim C6 says that two ranked rows with equal rating, equal vote count and the same
  actor-match status keep the order they have in the catalog. The sort is stable with
  respect to \<open>actor_mask\<close> (\<open>filter_movies_stable\<close>), which for a name without special
  characters is the substring test (\<open>filter_movies_stable_plain\<close>). For the name
  \<open>Jr.\<close> it is a regular expression search: of two rows tied on rating and votes, neither
  of which contains the name, the one with \<open>Cuba Gooding Jr, Ed Harris\<close> is moved before
  the one that precedes it in the catalog.
\<close>

theorem filter_movies_tie_as_pattern:
  "filter_movies rx
     [\<lparr>Label = 0, Title = ''Big'', Genre = [''Comedy''], Year = 2007, Rating = 8,
        Runtime = 104, Votes = 500, Actors = Some ''Tom Hanks''\<rparr>,
      \<lparr>Label = 1, Title = ''Radio'', Genre = [''Drama''], Year = 2006, Rating = 8,
        Runtime = 109, Votes = 500, Actors = Some ''Cuba Gooding Jr, Ed Harris''\<rparr>]
     \<lparr>genre = None, min_rating = None, min_year = None, max_year = None, max_runtime = None,
      fav_actor = Some ''Jr.''\<rparr> =
   Inr \<lparr>no_actor_match = False, sorted_df =
     [\<lparr>Label = 1, Title = ''Radio'', Genre = [''Drama''], Year = 2006, Rating = 8,
        Runtime = 109, Votes = 500, Actors = Some ''Cuba Gooding Jr, Ed Harris''\<rparr>,
      \<lparr>Label = 0, Title = ''Big'', Genre = [''Comedy''], Year = 2007, Rating = 8,
        Runtime = 104, Votes = 500, Actors = Some ''Tom Hanks''\<rparr>]\<rparr> \<and>
   \<not> ci_substring ''Jr.'' ''Tom Hanks'' \<and>
   \<not> ci_substring ''Jr.'' ''Cuba Gooding Jr, Ed Harris''"
proof -
  let ?p = "\<lparr>genre = None, min_rating = None, min_year = None, max_year = None,
             max_runtime = None, fav_actor = Some ''Jr.''\<rparr>"
  let ?df = "[\<lparr>Label = 0, Title = ''Big'', Genre = [''Comedy''], Year = 2007, Rating = 8,
        Runtime = 104, Votes = 500, Actors = Some ''Tom Hanks''\<rparr>,
      \<lparr>Label = 1, Title = ''Radio'', Genre = [''Drama''], Year = 2006, Rating = 8,
        Runtime = 109, Votes = 500, Actors = Some ''Cuba Gooding Jr, Ed Harris''\<rparr>]"
  let ?f = "search [Lit CHR ''J'', Lit CHR ''r'', Dot]"
  have c: "re_compile rx ''Jr.'' = Some ?f"
    by (simp add: re_compile_def simple_def special_def atom_of_def)
  have a: "?f ''Cuba Gooding Jr, Ed Harris''" by code_simp
  have b: "\<not> ?f ''Tom Hanks''" by code_simp
  have m: "mask ?p = (\<lambda>row. True)" by (simp add: mask_def fun_eq_iff)
  have n: "\<not> ci_substring ''Jr.'' ''Cuba Gooding Jr, Ed Harris''" by code_simp
  have y: "\<not> ci_substring ''Jr.'' ''Tom Hanks''" by code_simp
  have al: "aligned ?df" by (simp add: aligned_def)
  have ne: "?df \<noteq> [] \<or> \<not> no_filter ?p" by simp
  have fa: "fav_actor ?p = Some ''Jr.''" by simp
  have nn: "''Jr.'' \<noteq> []" by simp
  have "filter_movies rx ?df ?p =
   Inr \<lparr>no_actor_match = False, sorted_df =
     [\<lparr>Label = 1, Title = ''Radio'', Genre = [''Drama''], Year = 2006, Rating = 8,
        Runtime = 109, Votes = 500, Actors = Some ''Cuba Gooding Jr, Ed Harris''\<rparr>,
      \<lparr>Label = 0, Title = ''Big'', Genre = [''Comedy''], Year = 2007, Rating = 8,
        Runtime = 104, Votes = 500, Actors = Some ''Tom Hanks''\<rparr>]\<rparr>"
    unfolding filter_movies_actor[OF al ne fa nn c]
    by (simp add: m a b str_contains_def less_eq_prod_def del: search.simps)
  with n y show ?thesis by (simp only: simp_thms)
qed

text \<open>
  Claim C7 says that with only \<open>min_rating = r\<close> set the ranked list holds exactly the
  catalog rows with rating at least \<open>r\<close>. That holds on a frame whose labels the mask
  has (\<open>filter_movies_min_rating\<close>). When \<open>load_movie_data\<close> dropped the first row of
  the file, the two rows left carry the labels 1 and 2, the mask of line 116 carries 0 and
  1, and the selection of line 130 raises \<open>IndexingError\<close>: no ranked list is returned,
  although both rows have a rating of at least 7.
\<close>

theorem filter_movies_label_gap:
  "filter_movies rx
     [\<lparr>Label = 1, Title = ''Up'', Genre = [''Animation''], Year = 2009, Rating = 8.3,
        Runtime = 96, Votes = 500, Actors = Some ''Ed Asner''\<rparr>,
      \<lparr>Label = 2, Title = ''Big'', Genre = [''Comedy''], Year = 2007, Rating = 7.3,
        Runtime = 104, Votes = 500, Actors = Some ''Tom Hanks''\<rparr>]
     \<lparr>genre = None, min_rating = Some 7, min_year = None, max_year = None, max_runtime = None,
      fav_actor = Some []\<rparr> = Inl Indexing_error"
  by (simp add: filter_movies_def aligned_def no_filter_def)

end
